theory Spec2Isabelle
  imports Main
begin

section \<open>Knowledge-graph datasets: negative sampling and batch reindexing\<close>

text \<open>
  A shallow embedding of \<^verbatim>\<open>apps/graph4kg/utils/dataset.py\<close>: the classes
  \<^verbatim>\<open>KGDataset\<close> (negative sampling, reindexing, collation) and \<^verbatim>\<open>TestKGDataset\<close>
  (evaluation batches). Entity and relation ids are Python integers (\<open>int\<close>), numpy
  arrays of ids are lists, tensors are the arrays they are built from.
\<close>

subsection \<open>Errors, results and the random source\<close>

text \<open>
  Exceptions are values. A computation that may also loop forever returns an
  \<open>option\<close> around the sum: \<open>None\<close> means that the call never returns.
\<close>

datatype error = ValueError | KeyError | IndexError | AssertionError | TypeError | NameError

type_synonym 'a result = "(error + 'a) option"

definition bind_res :: "'a result \<Rightarrow> ('a \<Rightarrow> 'b result) \<Rightarrow> 'b result" where
  "bind_res m f =
     (case m of None \<Rightarrow> None | Some (Inl e) \<Rightarrow> Some (Inl e) | Some (Inr x) \<Rightarrow> f x)"

definition bind_err :: "error + 'a \<Rightarrow> ('a \<Rightarrow> error + 'b) \<Rightarrow> error + 'b" where
  "bind_err m f = (case m of Inl e \<Rightarrow> Inl e | Inr x \<Rightarrow> f x)"

text \<open>
  \<^verbatim>\<open>np.random\<close> is global state. The state is the sequence of raw draws still to
  come; a call consumes a prefix of it. Every outcome \<^verbatim>\<open>randint\<close> can produce is the
  image of some sequence, and the sequence is not constrained in any way.
\<close>

type_synonym rng = "nat \<Rightarrow> nat"

text \<open>
  \<^verbatim>\<open>np.random.randint(0, n, size)\<close> with the default 64-bit dtype: a negative size is
  rejected, an empty result is returned before the bounds are looked at, and otherwise
  the bounds must satisfy \<open>0 < n \<le> 2^63\<close> (\<^verbatim>\<open>low >= high\<close> and
  \<^verbatim>\<open>high is out of bounds\<close> are both \<^verbatim>\<open>ValueError\<close>).
\<close>

definition randint :: "int \<Rightarrow> int \<Rightarrow> rng \<Rightarrow> error + (int list \<times> rng)" where
  "randint n sz g =
     (if sz < 0 then Inl ValueError
      else if sz = 0 then Inr ([], g)
      else if n \<le> 0 \<or> 2 ^ 63 < n then Inl ValueError
      else Inr (map (\<lambda>i. int (g i) mod n) [0..<nat sz], \<lambda>i. g (i + nat sz)))"

subsection \<open>The negative sampler\<close>

text \<open>
  The candidate domain \<^verbatim>\<open>cand\<close> is either a Python int (ids \<open>0..n-1\<close>) or an array of
  candidate ids.
\<close>

datatype cand = CandInt int | CandArr "int list"

fun n_cand :: "cand \<Rightarrow> int" where
  "n_cand (CandInt n) = n"
| "n_cand (CandArr c) = int (length c)"

fun e_cand :: "cand \<Rightarrow> int list option" where
  "e_cand (CandInt n) = None"
| "e_cand (CandArr c) = Some c"

text \<open>
  \<^verbatim>\<open>new_e if e_cand is None else e_cand[new_e]\<close>. The indices come from
  \<^verbatim>\<open>randint(0, len(cand), ...)\<close>, so they are in range (lemma \<open>randint_range\<close>).
\<close>

definition map_cand :: "cand \<Rightarrow> int list \<Rightarrow> int list" where
  "map_cand c new_e =
     (case e_cand c of None \<Rightarrow> new_e | Some ec \<Rightarrow> map (\<lambda>i. ec ! nat i) new_e)"

text \<open>
  For stating properties: the ids of the candidate domain, and the id that one drawn
  index stands for.
\<close>

fun cand_ids :: "cand \<Rightarrow> int set" where
  "cand_ids (CandInt n) = {0..<n}"
| "cand_ids (CandArr c) = set c"

fun pick :: "cand \<Rightarrow> int \<Rightarrow> int" where
  "pick (CandInt n) i = i"
| "pick (CandArr c) i = c ! nat i"


text \<open>
  The filter collection handed to \<^verbatim>\<open>np.in1d\<close>. numpy converts its second argument
  with \<^verbatim>\<open>np.asarray\<close>: a list or an array of ids becomes the array of those ids,
  whereas a Python \<^verbatim>\<open>set\<close> is not a sequence and becomes an object array with one
  element, the set itself, which no integer equals. The class docstring gives the
  dictionary values as \<^verbatim>\<open>set(h)\<close> and \<^verbatim>\<open>set(t)\<close>, so both shapes are inputs.
\<close>

datatype filter_coll = IdSeq "int list" | PySet "int set"

fun members :: "filter_coll \<Rightarrow> int set" where
  "members (IdSeq fs) = set fs"
| "members (PySet s) = s"

fun in1d_invert :: "int list \<Rightarrow> filter_coll \<Rightarrow> bool list" where
  "in1d_invert ar1 (IdSeq fs) = map (\<lambda>x. x \<notin> set fs) ar1"
| "in1d_invert ar1 (PySet s) = map (\<lambda>x. True) ar1"

text \<open>Boolean-mask indexing \<^verbatim>\<open>new_e[mask]\<close>; the mask has the length of the array.\<close>

definition mask_select :: "'a list \<Rightarrow> bool list \<Rightarrow> 'a list" where
  "mask_select xs msk = map fst (filter snd (zip xs msk))"

text \<open>
  The rejection loop of the filtered branch, with the loop variables
  \<^verbatim>\<open>new_e_list\<close> and \<^verbatim>\<open>new_e_num\<close> as arguments. Nothing bounds the number of
  iterations, so the loop is a partial function.
\<close>

partial_function (option) sampler_loop ::
  "int \<Rightarrow> cand \<Rightarrow> filter_coll \<Rightarrow> int list list \<Rightarrow> int \<Rightarrow> rng
     \<Rightarrow> (error + (int list list \<times> rng)) option" where
  "sampler_loop k c filter_set new_e_list new_e_num g =
     (if new_e_num < k then
        (case randint (n_cand c) (2 * k) g of
           Inl e \<Rightarrow> Some (Inl e)
         | Inr (drawn, g') \<Rightarrow>
             (let new_e = map_cand c drawn;
                  msk = in1d_invert new_e filter_set;
                  new_e = mask_select new_e msk
              in sampler_loop k c filter_set (new_e_list @ [new_e])
                   (new_e_num + int (length new_e)) g'))
      else Some (Inr (new_e_list, g)))"

text \<open>\<^verbatim>\<open>xs[:k]\<close> for a Python int \<open>k\<close>.\<close>

definition slice_to :: "'a list \<Rightarrow> int \<Rightarrow> 'a list" where
  "slice_to xs k = (if 0 \<le> k then take (nat k) xs else take (length xs - nat (- k)) xs)"

text \<open>\<^verbatim>\<open>np.concatenate\<close> rejects an empty list of arrays.\<close>

definition np_concatenate :: "'a list list \<Rightarrow> error + 'a list" where
  "np_concatenate arrays = (if arrays = [] then Inl ValueError else Inr (concat arrays))"

definition uniform_sampler :: "int \<Rightarrow> cand \<Rightarrow> filter_coll option \<Rightarrow> rng \<Rightarrow> (int list \<times> rng) result" where
  "uniform_sampler k c filter_set g =
     (case filter_set of
        Some fs \<Rightarrow>
          bind_res (sampler_loop k c fs [] 0 g) (\<lambda>(new_e_list, g').
            case np_concatenate new_e_list of
              Inl e \<Rightarrow> Some (Inl e)
            | Inr new_e \<Rightarrow> Some (Inr (slice_to new_e k, g')))
      | None \<Rightarrow>
          (case randint (n_cand c) k g of
             Inl e \<Rightarrow> Some (Inl e)
           | Inr (drawn, g') \<Rightarrow> Some (Inr (map_cand c drawn, g'))))"

subsection \<open>The reindexer\<close>

text \<open>\<^verbatim>\<open>np.unique\<close> of a flat array: its distinct values in increasing order.\<close>

definition np_unique :: "int list \<Rightarrow> int list" where
  "np_unique xs = sort (remdups xs)"

text \<open>\<^verbatim>\<open>dict(pairs)\<close>: a later pair overrides an earlier one with the same key.\<close>

definition dict_of :: "('k \<times> 'v) list \<Rightarrow> ('k \<rightharpoonup> 'v)" where
  "dict_of ps = fold (\<lambda>(k, v) m. m(k \<mapsto> v)) ps Map.empty"

definition enumerate_py :: "'a list \<Rightarrow> (nat \<times> 'a) list" where
  "enumerate_py xs = zip [0..<length xs] xs"

definition dict_get :: "('k \<rightharpoonup> 'v) \<Rightarrow> 'k \<Rightarrow> error + 'v" where
  "dict_get m k = (case m k of None \<Rightarrow> Inl KeyError | Some v \<Rightarrow> Inr v)"

text \<open>
  \<open>map_res f xs\<close> is the comprehension \<^verbatim>\<open>[f(x) for x in xs]\<close>, the first exception
  ending it. \<^verbatim>\<open>np.vectorize(f)\<close> applied to a flat array does the same, but without
  \<^verbatim>\<open>otypes\<close> it refuses an array of size 0.
\<close>

fun map_res :: "('a \<Rightarrow> error + 'b) \<Rightarrow> 'a list \<Rightarrow> error + 'b list" where
  "map_res f [] = Inr []"
| "map_res f (x # xs) =
     (case f x of
        Inl e \<Rightarrow> Inl e
      | Inr y \<Rightarrow> (case map_res f xs of Inl e \<Rightarrow> Inl e | Inr ys \<Rightarrow> Inr (y # ys)))"

definition vectorize :: "('a \<Rightarrow> error + 'b) \<Rightarrow> 'a list \<Rightarrow> error + 'b list" where
  "vectorize f xs = (if xs = [] then Inl ValueError else map_res f xs)"

text \<open>
  \<^verbatim>\<open>group_index\<close> returns the function \<^verbatim>\<open>np.vectorize(lambda x: reindex_dict[x])\<close>
  and the vocabulary. The function is represented by its dictionary; applying it is
  \<open>reindex_func\<close>.
\<close>

definition reindex_func :: "(int \<rightharpoonup> nat) \<Rightarrow> int list \<Rightarrow> error + nat list" where
  "reindex_func reindex_dict = vectorize (\<lambda>x. dict_get reindex_dict x)"

definition group_index :: "int list list \<Rightarrow> error + ((int \<rightharpoonup> nat) \<times> int list)" where
  "group_index data =
     (case np_concatenate data of
        Inl e \<Rightarrow> Inl e
      | Inr flat \<Rightarrow>
          (let uniques = np_unique flat;
               reindex_dict = dict_of (map (\<lambda>(i, x). (x, i)) (enumerate_py uniques))
           in Inr (reindex_dict, uniques)))"

subsection \<open>\<^verbatim>\<open>KGDataset\<close>\<close>

type_synonym triplet = "int \<times> int \<times> int"

text \<open>
  One side of the filter dictionary, \<^verbatim>\<open>{(t, r): heads}\<close> or \<^verbatim>\<open>{(h, r): tails}\<close>, as
  the list of its items (the code asks whether it is empty). The whole dictionary maps
  \<^verbatim>\<open>'head'\<close> and \<^verbatim>\<open>'tail'\<close> to such a side or to \<^verbatim>\<open>None\<close>.
\<close>

type_synonym fl_dict = "((int \<times> int) \<times> filter_coll) list"

record kg_dataset =
  triplets :: "triplet list"
  num_ents :: int
  num_negs :: int
  neg_mode :: string
  filter_mode :: bool
  filter_dict :: "string \<rightharpoonup> fl_dict option"
  step :: int

definition KGDataset_init ::
  "triplet list \<Rightarrow> int \<Rightarrow> int \<Rightarrow> string \<Rightarrow> bool \<Rightarrow> (string \<rightharpoonup> fl_dict option) option
     \<Rightarrow> error + kg_dataset" where
  "KGDataset_init trs n_ents n_negs mode_name flt_mode flt_dict =
     (if flt_mode = False then
        Inr \<lparr>triplets = trs, num_ents = n_ents, num_negs = n_negs, neg_mode = mode_name,
             filter_mode = flt_mode,
             filter_dict = [''head'' \<mapsto> None, ''tail'' \<mapsto> None], step = 0\<rparr>
      else
        (case flt_dict of
           None \<Rightarrow> Inl AssertionError
         | Some fd \<Rightarrow>
             if fd ''head'' = None then Inl AssertionError
             else if fd ''tail'' = None then Inl AssertionError
             else Inr \<lparr>triplets = trs, num_ents = n_ents, num_negs = n_negs,
                       neg_mode = mode_name, filter_mode = flt_mode,
                       filter_dict = fd, step = 0\<rparr>))"

text \<open>\<^verbatim>\<open>xs[i]\<close> on a Python sequence: a negative index counts from the end.\<close>

definition py_index :: "'a list \<Rightarrow> int \<Rightarrow> error + 'a" where
  "py_index xs i =
     (if 0 \<le> i \<and> i < int (length xs) then Inr (xs ! nat i)
      else if i < 0 \<and> - int (length xs) \<le> i then Inr (xs ! nat (int (length xs) + i))
      else Inl IndexError)"

definition kg_len :: "kg_dataset \<Rightarrow> nat" where
  "kg_len ds = length (triplets ds)"

definition kg_getitem :: "kg_dataset \<Rightarrow> int \<Rightarrow> error + triplet" where
  "kg_getitem ds index = py_index (triplets ds) index"

text \<open>\<^verbatim>\<open>fl_set[key] if fl_set else None\<close>: \<^verbatim>\<open>None\<close> and the empty dictionary are falsy.\<close>

definition fl_set_i :: "fl_dict option \<Rightarrow> int \<times> int \<Rightarrow> error + filter_coll option" where
  "fl_set_i fl_set key =
     (case fl_set of
        None \<Rightarrow> Inr None
      | Some d \<Rightarrow>
          if d = [] then Inr None
          else (case map_of d key of None \<Rightarrow> Inl KeyError | Some s \<Rightarrow> Inr (Some s)))"

text \<open>
  The loop \<^verbatim>\<open>for hi, ri, ti in data: neg_ents.append(uniform_sampler(...))\<close>; \<open>key\<close>
  picks \<^verbatim>\<open>(ti, ri)\<close> or \<^verbatim>\<open>(hi, ri)\<close>.
\<close>

fun sample_negs ::
  "(triplet \<Rightarrow> int \<times> int) \<Rightarrow> int \<Rightarrow> cand \<Rightarrow> fl_dict option \<Rightarrow> triplet list \<Rightarrow> rng
     \<Rightarrow> (int list list \<times> rng) result" where
  "sample_negs key k c fl_set [] g = Some (Inr ([], g))"
| "sample_negs key k c fl_set (x # rest) g =
     bind_res (Some (fl_set_i fl_set (key x))) (\<lambda>fl.
       bind_res (uniform_sampler k c fl g) (\<lambda>(neg, g').
         bind_res (sample_negs key k c fl_set rest g') (\<lambda>(negs, g'').
           Some (Inr (neg # negs, g'')))))"

text \<open>\<^verbatim>\<open>np.stack\<close> of flat arrays: at least one array, all of one length.\<close>

definition np_stack :: "'a list list \<Rightarrow> error + 'a list list" where
  "np_stack rows =
     (if rows = [] \<or> \<not> list_all (\<lambda>row. length row = length (hd rows)) rows
      then Inl ValueError else Inr rows)"

text \<open>
  A collated batch: \<^verbatim>\<open>((h, r, t, neg_ents), all_ents, mode)\<close>, heads, tails and
  negatives as local indices into \<^verbatim>\<open>all_ents\<close>.
\<close>

type_synonym kg_batch = "(nat list \<times> int list \<times> nat list \<times> nat list list) \<times> int list \<times> string"

definition draw_negs ::
  "kg_dataset \<Rightarrow> triplet list \<Rightarrow> string \<Rightarrow> fl_dict option \<Rightarrow> cand \<Rightarrow> rng
     \<Rightarrow> (int list list \<times> rng) result" where
  "draw_negs ds data mode fl_set c g =
     (if mode = ''head''
      then sample_negs (\<lambda>(hi, ri, ti). (ti, ri)) (num_negs ds) c fl_set data g
      else sample_negs (\<lambda>(hi, ri, ti). (hi, ri)) (num_negs ds) c fl_set data g)"

definition to_batch ::
  "(int \<rightharpoonup> nat) \<Rightarrow> int list \<Rightarrow> string \<Rightarrow> int list \<Rightarrow> int list \<Rightarrow> int list \<Rightarrow> int list list
     \<Rightarrow> error + kg_batch" where
  "to_batch reindex_dict all_ents mode h r t neg_ents =
     bind_err (reindex_func reindex_dict h) (\<lambda>h'.
       bind_err (reindex_func reindex_dict t) (\<lambda>t'.
         bind_err (map_res (reindex_func reindex_dict) neg_ents) (\<lambda>rows.
           bind_err (np_stack rows) (\<lambda>neg_ents'.
             Inr ((h', r, t', neg_ents'), all_ents, mode)))))"

text \<open>
  \<^verbatim>\<open>_collate_fn\<close>. Unpacking \<^verbatim>\<open>np.array(data).T\<close> into three names fails on an
  empty batch.
\<close>

definition collate_fn ::
  "kg_dataset \<Rightarrow> triplet list \<Rightarrow> string \<Rightarrow> fl_dict option \<Rightarrow> rng \<Rightarrow> (kg_batch \<times> rng) result" where
  "collate_fn ds data mode fl_set g =
     (if data = [] then Some (Inl ValueError)
      else
        let h = map fst data; r = map (fst \<circ> snd) data; t = map (snd \<circ> snd) data in
        if neg_mode ds = ''batch'' then
          bind_res (Some (group_index [h, t])) (\<lambda>(reindex_dict, all_ents).
            bind_res (draw_negs ds data mode fl_set (CandArr all_ents) g) (\<lambda>(neg_ents, g').
              bind_res (Some (to_batch reindex_dict all_ents mode h r t neg_ents)) (\<lambda>b.
                Some (Inr (b, g')))))
        else if neg_mode ds = ''full'' then
          bind_res (draw_negs ds data mode fl_set (CandInt (num_ents ds)) g) (\<lambda>(neg_ents, g').
            bind_res (Some (np_concatenate neg_ents)) (\<lambda>flat.
              bind_res (Some (group_index [h, t, flat])) (\<lambda>(reindex_dict, all_ents).
                bind_res (Some (to_batch reindex_dict all_ents mode h r t neg_ents)) (\<lambda>b.
                  Some (Inr (b, g'))))))
        else Some (Inl ValueError))"

definition head_collate_fn :: "kg_dataset \<Rightarrow> triplet list \<Rightarrow> rng \<Rightarrow> (kg_batch \<times> rng) result" where
  "head_collate_fn ds data g =
     bind_res (Some (dict_get (filter_dict ds) ''head'')) (\<lambda>fl_set.
       collate_fn ds data ''head'' fl_set g)"

definition tail_collate_fn :: "kg_dataset \<Rightarrow> triplet list \<Rightarrow> rng \<Rightarrow> (kg_batch \<times> rng) result" where
  "tail_collate_fn ds data g =
     bind_res (Some (dict_get (filter_dict ds) ''tail'')) (\<lambda>fl_set.
       collate_fn ds data ''tail'' fl_set g)"

text \<open>
  \<^verbatim>\<open>mixed_collate_fn\<close> changes the dataset (\<^verbatim>\<open>self._step += 1\<close>) before anything
  else, so the new dataset is returned whatever becomes of the collation.
\<close>

definition mixed_collate_fn ::
  "kg_dataset \<Rightarrow> triplet list \<Rightarrow> rng \<Rightarrow> kg_dataset \<times> (kg_batch \<times> rng) result" where
  "mixed_collate_fn ds data g =
     (let ds' = ds\<lparr>step := step ds + 1\<rparr>
      in (ds', if step ds' mod 2 = 0
               then bind_res (Some (dict_get (filter_dict ds') ''head'')) (\<lambda>fl_set.
                      collate_fn ds' data ''head'' fl_set g)
               else bind_res (Some (dict_get (filter_dict ds') ''tail'')) (\<lambda>fl_set.
                      collate_fn ds' data ''tail'' fl_set g)))"

text \<open>
  For stating properties: the dataset after a sequence of \<^verbatim>\<open>mixed_collate_fn\<close> calls,
  each with its batch and the random source it meets.
\<close>

definition after_mixed_calls :: "kg_dataset \<Rightarrow> (triplet list \<times> rng) list \<Rightarrow> kg_dataset" where
  "after_mixed_calls ds calls = fold (\<lambda>(data, g) d. fst (mixed_collate_fn d data g)) calls ds"

subsection \<open>\<^verbatim>\<open>TestKGDataset\<close>\<close>

text \<open>
  The values the \<^verbatim>\<open>'candidate'\<close> entry and an item's candidate field take: a Python
  int, a flat array, or an array of rows.
\<close>

datatype pyval = PInt int | PArr "int list" | PMat "int list list"

text \<open>
  The constructor's \<^verbatim>\<open>triplets\<close> dictionary, one field per key; \<open>None\<close> is a missing
  key.
\<close>

record eval_triplets =
  tr_mode :: "string option"
  tr_h :: "int list option"
  tr_r :: "int list option"
  tr_t :: "int list option"
  tr_candidate :: "pyval option"
  tr_correct_index :: "int list option"

record test_dataset =
  test_num_ents :: int
  test_mode :: string
  test_h :: "int list"
  test_r :: "int list"
  test_t :: "int list option"
  test_cand :: pyval
  test_corr_idx :: "int list option"

definition key_of :: "'a option \<Rightarrow> error + 'a" where
  "key_of v = (case v of None \<Rightarrow> Inl KeyError | Some x \<Rightarrow> Inr x)"

definition TestKGDataset_init :: "eval_triplets \<Rightarrow> int \<Rightarrow> error + test_dataset" where
  "TestKGDataset_init trs n_ents =
     bind_err (key_of (tr_mode trs)) (\<lambda>m.
       if m \<noteq> ''wiki'' \<and> m \<noteq> ''normal'' then Inl AssertionError
       else
         bind_err (key_of (tr_h trs)) (\<lambda>hs.
           bind_err (key_of (tr_r trs)) (\<lambda>rs.
             bind_err (key_of (tr_candidate trs)) (\<lambda>cd.
               Inr \<lparr>test_num_ents = n_ents, test_mode = m, test_h = hs, test_r = rs,
                    test_t = tr_t trs, test_cand = cd,
                    test_corr_idx = tr_correct_index trs\<rparr>))))"

definition test_len :: "test_dataset \<Rightarrow> nat" where
  "test_len ds = length (test_r ds)"

text \<open>\<^verbatim>\<open>self._cand[index]\<close>; a Python int cannot be subscripted.\<close>

fun pyval_index :: "pyval \<Rightarrow> int \<Rightarrow> error + pyval" where
  "pyval_index (PInt n) i = Inl TypeError"
| "pyval_index (PArr xs) i = bind_err (py_index xs i) (\<lambda>x. Inr (PInt x))"
| "pyval_index (PMat rows) i = bind_err (py_index rows i) (\<lambda>row. Inr (PArr row))"

text \<open>Truth value of an optional Python list: \<^verbatim>\<open>None\<close> and \<^verbatim>\<open>[]\<close> are falsy.\<close>

fun truthy :: "'a list option \<Rightarrow> bool" where
  "truthy None = False"
| "truthy (Some xs) = (xs \<noteq> [])"

type_synonym test_item = "(int \<times> int \<times> int option) \<times> pyval \<times> int option"

definition test_getitem :: "test_dataset \<Rightarrow> int \<Rightarrow> error + test_item" where
  "test_getitem ds index =
     bind_err (py_index (test_h ds) index) (\<lambda>h.
       bind_err (py_index (test_r ds) index) (\<lambda>r.
         bind_err (case test_t ds of
                     None \<Rightarrow> Inr None
                   | Some ts \<Rightarrow> bind_err (py_index ts index) (\<lambda>t. Inr (Some t))) (\<lambda>t.
           bind_err (if test_mode ds = ''normal'' then Inr (test_cand ds)
                     else pyval_index (test_cand ds) index) (\<lambda>cd.
             bind_err (case test_corr_idx ds of
                         None \<Rightarrow> Inr None
                       | Some cs \<Rightarrow>
                           if truthy (Some cs)
                           then bind_err (py_index cs index) (\<lambda>ci. Inr (Some ci))
                           else Inr None) (\<lambda>corr_idx.
               Inr ((h, r, t), cd, corr_idx))))))"

text \<open>
  \<^verbatim>\<open>paddle.to_tensor\<close> of a list that holds \<^verbatim>\<open>None\<close> is rejected; of a list of ints
  it is that list.
\<close>

definition to_tensor_opt :: "int option list \<Rightarrow> error + int list" where
  "to_tensor_opt xs = (if list_all (\<lambda>x. x \<noteq> None) xs then Inr (map the xs) else Inl ValueError)"

text \<open>The candidate tensor of a batch, of one, two or three dimensions.\<close>

datatype tensor = T1 "int list" | T2 "int list list" | T3 "int list list list"

text \<open>\<^verbatim>\<open>paddle.reshape(paddle.arange(n), (1, -1))\<close>: one row holding \<open>0, ..., n - 1\<close>.\<close>

fun arange_row :: "pyval \<Rightarrow> error + tensor" where
  "arange_row (PInt n) = Inr (T2 [map int [0..<nat n]])"
| "arange_row (PArr xs) = Inl TypeError"
| "arange_row (PMat rows) = Inl TypeError"

text \<open>
  \<^verbatim>\<open>np.stack\<close> of the items' candidate fields: the fields must all have one shape, and
  the result has one dimension more. Scalars stack to a flat array, flat arrays of one
  length to a matrix, matrices of one shape to a three-dimensional array.
\<close>

fun int_of :: "pyval \<Rightarrow> int option" where
  "int_of (PInt n) = Some n"
| "int_of (PArr xs) = None"
| "int_of (PMat rows) = None"

fun arr_of :: "pyval \<Rightarrow> int list option" where
  "arr_of (PArr xs) = Some xs"
| "arr_of (PInt n) = None"
| "arr_of (PMat rows) = None"

fun mat_of :: "pyval \<Rightarrow> int list list option" where
  "mat_of (PMat rows) = Some rows"
| "mat_of (PInt n) = None"
| "mat_of (PArr xs) = None"

definition stack_cands :: "pyval list \<Rightarrow> error + tensor" where
  "stack_cands vs =
     (if vs = [] then Inl ValueError
      else
        (case those (map int_of vs) of
           Some xs \<Rightarrow> Inr (T1 xs)
         | None \<Rightarrow>
             (case those (map arr_of vs) of
                Some rows \<Rightarrow> bind_err (np_stack rows) (\<lambda>m. Inr (T2 m))
              | None \<Rightarrow>
                  (case those (map mat_of vs) of
                     Some ms \<Rightarrow>
                       if list_all (\<lambda>m. map length m = map length (hd ms)) ms
                       then Inr (T3 ms) else Inl ValueError
                   | None \<Rightarrow> Inl ValueError))))"

type_synonym test_batch =
  "string \<times> (int list \<times> int list \<times> int list option \<times> tensor) \<times> int list option"

definition test_collate_fn :: "test_dataset \<Rightarrow> test_item list \<Rightarrow> error + test_batch" where
  "test_collate_fn ds data =
     (let mode = test_mode ds;
          h = map (\<lambda>x. fst (fst x)) data;
          r = map (\<lambda>x. fst (snd (fst x))) data
      in if mode = ''wiki'' then
           bind_err (stack_cands (map (\<lambda>x. fst (snd x)) data)) (\<lambda>cd.
             bind_err (if truthy (test_corr_idx ds)
                       then bind_err (to_tensor_opt (map (\<lambda>x. snd (snd x)) data)) (\<lambda>cs.
                              if cs = [] then Inl ValueError else Inr (Some cs))
                       else Inr None) (\<lambda>corr_idx.
               Inr (mode, (h, r, None, cd), corr_idx)))
         else if mode = ''normal'' then
           bind_err (to_tensor_opt (map (\<lambda>x. snd (snd (fst x))) data)) (\<lambda>t.
             bind_err (py_index data 0) (\<lambda>x0.
               bind_err (arange_row (fst (snd x0))) (\<lambda>cd.
                 Inr (mode, (h, r, Some t, cd), None))))
         else Inl NameError)"

section \<open>Properties\<close>

subsection \<open>The reindexer: auxiliary facts\<close>

lemma np_unique_sorted: "sorted (np_unique xs)"
  by (simp add: np_unique_def)

lemma np_unique_distinct: "distinct (np_unique xs)"
  by (simp add: np_unique_def)

lemma np_unique_set: "set (np_unique xs) = set xs"
  by (simp add: np_unique_def)

lemma np_unique_sorted_list_of_set: "np_unique xs = sorted_list_of_set (set xs)"
  by (simp add: np_unique_def sorted_list_of_set_sort_remdups)

lemma fold_upd_map_of:
  "fold (\<lambda>(k, v) m. m(k \<mapsto> v)) ps m = m ++ map_of (rev ps)"
  by (induction ps arbitrary: m) (auto simp: map_add_def fun_eq_iff split: option.splits)

lemma dict_of_map_of: "dict_of ps = map_of (rev ps)"
  by (simp add: dict_of_def fold_upd_map_of)

lemma swap_enumerate: "map (\<lambda>(i, x). (x, i)) (enumerate_py u) = zip u [0..<length u]"
  by (simp add: enumerate_py_def zip_commute[of u] )

lemma reindex_dict_iff:
  assumes "distinct u"
  shows "dict_of (map (\<lambda>(i, x). (x, i)) (enumerate_py u)) x = Some i \<longleftrightarrow> i < length u \<and> u ! i = x"
proof -
  have d: "distinct (map fst (rev (zip u [0..<length u])))"
    using assms by (simp add: rev_map[symmetric] )
  have "dict_of (map (\<lambda>(i, x). (x, i)) (enumerate_py u)) x = Some i
          \<longleftrightarrow> (x, i) \<in> set (zip u [0..<length u])"
    unfolding swap_enumerate dict_of_map_of using map_of_eq_Some_iff[OF d] by simp
  also have "\<dots> \<longleftrightarrow> i < length u \<and> u ! i = x"
    by (auto simp: in_set_zip)
  finally show ?thesis .
qed

lemma group_index_Inr:
  "data \<noteq> [] \<Longrightarrow>
     group_index data =
       Inr (dict_of (map (\<lambda>(i, x). (x, i)) (enumerate_py (np_unique (concat data)))),
            np_unique (concat data))"
  by (simp add: group_index_def np_concatenate_def Let_def)

lemma group_index_cases:
  assumes "group_index data = Inr (d, u)"
  shows "data \<noteq> []" and "u = np_unique (concat data)"
    and "\<And>x i. d x = Some i \<longleftrightarrow> i < length u \<and> u ! i = x"
proof -
  show ne: "data \<noteq> []" using assms by (auto simp: group_index_def np_concatenate_def)
  from group_index_Inr[OF ne] assms
  have d: "d = dict_of (map (\<lambda>(i, x). (x, i)) (enumerate_py (np_unique (concat data))))"
    and u: "u = np_unique (concat data)" by simp_all
  show "u = np_unique (concat data)" by (rule u)
  show "\<And>x i. d x = Some i \<longleftrightarrow> i < length u \<and> u ! i = x"
    unfolding d u by (rule reindex_dict_iff) (rule np_unique_distinct)
qed

lemma map_res_Inr_iff:
  "map_res f xs = Inr ys \<longleftrightarrow> length ys = length xs \<and> (\<forall>j < length xs. f (xs ! j) = Inr (ys ! j))"
proof (induction xs arbitrary: ys)
  case Nil
  then show ?case by auto
next
  case (Cons x xs)
  show ?case
  proof (cases ys)
    case Nil
    then show ?thesis by (auto split: sum.splits)
  next
    case (Cons y ys')
    then show ?thesis using Cons.IH[of ys']
      by (auto split: sum.splits simp: nth_Cons less_Suc_eq_0_disj  split: nat.splits)
  qed
qed

lemma map_res_Inl:
  "map_res f xs = Inl e \<Longrightarrow> \<exists>x \<in> set xs. f x = Inl e"
  by (induction xs) (auto split: sum.splits)

lemma map_res_total:
  "(\<And>x. x \<in> set xs \<Longrightarrow> \<exists>y. f x = Inr y) \<Longrightarrow> \<exists>ys. map_res f xs = Inr ys"
  by (induction xs) (fastforce split: sum.splits)+


lemma reindex_func_Inr_iff:
  "reindex_func d xs = Inr ys \<longleftrightarrow>
     xs \<noteq> [] \<and> length ys = length xs \<and> (\<forall>j < length xs. d (xs ! j) = Some (ys ! j))"
  by (auto simp: reindex_func_def vectorize_def map_res_Inr_iff dict_get_def split: option.splits)

lemma reindex_func_defined:
  assumes "xs \<noteq> []" and "set xs \<subseteq> dom d"
  shows "\<exists>ys. reindex_func d xs = Inr ys"
proof -
  have "\<exists>ys. map_res (\<lambda>x. dict_get d x) xs = Inr ys"
    using assms(2) by (intro map_res_total) (auto simp: dict_get_def dom_def)
  then show ?thesis using assms(1) by (simp add: reindex_func_def vectorize_def)
qed

lemma reindex_func_KeyError:
  assumes "x \<in> set xs" and "d x = None"
  shows "reindex_func d xs = Inl KeyError"
proof (cases "reindex_func d xs")
  case (Inl e)
  from assms(1) have ne: "xs \<noteq> []" by auto
  with Inl have "map_res (\<lambda>x. dict_get d x) xs = Inl e"
    by (simp add: reindex_func_def vectorize_def)
  then obtain z where "dict_get d z = Inl e" by (blast dest: map_res_Inl)
  then have "e = KeyError" by (auto simp: dict_get_def split: option.splits)
  with Inl show ?thesis by simp
next
  case (Inr ys)
  from assms(1) obtain j where "j < length xs" "xs ! j = x" by (auto simp: in_set_conv_nth)
  with Inr assms(2) show ?thesis by (auto simp: reindex_func_Inr_iff)
qed

lemma group_index_dom:
  assumes "group_index data = Inr (d, u)"
  shows "dom d = set (concat data)"
proof -
  note gi = group_index_cases[OF assms]
  have "dom d = set u" by (auto simp: dom_def gi(3) in_set_conv_nth)
  then show ?thesis by (simp add: gi(2) np_unique_set)
qed

subsection \<open>Claims about the reindexer\<close>

text \<open>
  Claim C1 (round-trip law of the reindexer). For a non-empty list of id arrays,
  \<^verbatim>\<open>group_index\<close> returns a dictionary and a vocabulary \<open>u\<close>; \<open>u\<close> is the sorted
  list of the distinct ids of all the arrays, its length \<open>U\<close> is their number, every
  id of the input is mapped to an index below \<open>U\<close> at which the vocabulary holds
  that id, and the returned vectorised function, applied to a non-empty array of input
  ids, returns the array of those indices: \<open>u[reindex(x)] = x\<close>.
\<close>

theorem group_index_round_trip:
  assumes "data \<noteq> []"
  shows "\<exists>d u. group_index data = Inr (d, u)
           \<and> u = sorted_list_of_set (\<Union> (set ` set data))
           \<and> length u = card (\<Union> (set ` set data))
           \<and> (\<forall>x \<in> \<Union> (set ` set data). \<exists>i. d x = Some i \<and> i < length u \<and> u ! i = x)
           \<and> (\<forall>xs. xs \<noteq> [] \<and> set xs \<subseteq> \<Union> (set ` set data) \<longrightarrow>
                 (\<exists>ys. reindex_func d xs = Inr ys \<and> length ys = length xs
                    \<and> (\<forall>j < length xs. ys ! j < length u \<and> u ! (ys ! j) = xs ! j)))"
proof -
  obtain d u where gi: "group_index data = Inr (d, u)"
    using group_index_Inr[OF assms] by blast
  note c = group_index_cases[OF gi]
  have ids: "\<Union> (set ` set data) = set (concat data)" by simp
  have u: "u = sorted_list_of_set (\<Union> (set ` set data))"
    unfolding ids c(2) by (rule np_unique_sorted_list_of_set)
  have len: "length u = card (\<Union> (set ` set data))"
    unfolding ids c(2) using distinct_card[OF np_unique_distinct, of "concat data"]
    by (simp add: np_unique_set)
  have dom: "dom d = \<Union> (set ` set data)"
    unfolding ids by (rule group_index_dom[OF gi])
  have one: "\<forall>x \<in> \<Union> (set ` set data). \<exists>i. d x = Some i \<and> i < length u \<and> u ! i = x"
  proof
    fix x assume "x \<in> \<Union> (set ` set data)"
    then obtain i where "d x = Some i" using dom by blast
    then show "\<exists>i. d x = Some i \<and> i < length u \<and> u ! i = x" using c(3) by blast
  qed
  have vec: "\<forall>xs. xs \<noteq> [] \<and> set xs \<subseteq> \<Union> (set ` set data) \<longrightarrow>
                 (\<exists>ys. reindex_func d xs = Inr ys \<and> length ys = length xs
                    \<and> (\<forall>j < length xs. ys ! j < length u \<and> u ! (ys ! j) = xs ! j))"
  proof (intro allI impI)
    fix xs assume a: "xs \<noteq> [] \<and> set xs \<subseteq> \<Union> (set ` set data)"
    then obtain ys where ys: "reindex_func d xs = Inr ys"
      using reindex_func_defined[of xs d] dom by auto
    then have "length ys = length xs" and "\<forall>j < length xs. d (xs ! j) = Some (ys ! j)"
      by (simp_all add: reindex_func_Inr_iff)
    then show "\<exists>ys. reindex_func d xs = Inr ys \<and> length ys = length xs
                    \<and> (\<forall>j < length xs. ys ! j < length u \<and> u ! (ys ! j) = xs ! j)"
      using ys c(3) by auto
  qed
  from gi u len one vec show ?thesis by blast
qed

theorem group_index_round_trip_witness:
  "[[3, 1], [1, 2 :: int]] \<noteq> [] \<and>
   (\<exists>d u. group_index [[3, 1], [1, 2]] = Inr (d, u)
           \<and> u = sorted_list_of_set (\<Union> (set ` set [[3, 1], [1, 2]]))
           \<and> length u = card (\<Union> (set ` set [[3, 1], [1, 2 :: int]]))
           \<and> (\<forall>x \<in> \<Union> (set ` set [[3, 1], [1, 2]]). \<exists>i. d x = Some i \<and> i < length u \<and> u ! i = x)
           \<and> (\<forall>xs. xs \<noteq> [] \<and> set xs \<subseteq> \<Union> (set ` set [[3, 1], [1, 2]]) \<longrightarrow>
                 (\<exists>ys. reindex_func d xs = Inr ys \<and> length ys = length xs
                    \<and> (\<forall>j < length xs. ys ! j < length u \<and> u ! (ys ! j) = xs ! j))))"
proof -
  have ne: "[[3, 1], [1, 2 :: int]] \<noteq> []" by simp
  show ?thesis using ne group_index_round_trip[OF ne] by (intro conjI)
qed

text \<open>
  Claim C8 (where the mapping is defined). The mapping that \<^verbatim>\<open>group_index\<close> returns
  is defined exactly on the ids of the input arrays: a lookup succeeds for these ids
  and no others, and gives the position of the id in the vocabulary; the vectorised
  function succeeds exactly on the non-empty arrays of input ids and returns their
  positions; looking up an id that is not among the input ids is a \<^verbatim>\<open>KeyError\<close>,
  also when the function is applied to an array that holds such an id; and the result
  is determined by the set of ids alone: any other non-empty input with the same ids
  gives the same dictionary and vocabulary.
\<close>

theorem group_index_total_on_inputs:
  assumes "group_index data = Inr (d, u)"
  shows "dom d = \<Union> (set ` set data)
         \<and> (\<forall>x. x \<in> \<Union> (set ` set data) \<longleftrightarrow> (\<exists>i. dict_get d x = Inr i))
         \<and> (\<forall>x \<in> \<Union> (set ` set data).
               \<exists>i. dict_get d x = Inr i \<and> i < length u \<and> u ! i = x \<and> reindex_func d [x] = Inr [i])
         \<and> (\<forall>xs. (\<exists>ys. reindex_func d xs = Inr ys) \<longleftrightarrow> xs \<noteq> [] \<and> set xs \<subseteq> \<Union> (set ` set data))
         \<and> (\<forall>xs ys. reindex_func d xs = Inr ys \<longrightarrow>
               length ys = length xs
               \<and> (\<forall>j < length xs. ys ! j < length u \<and> u ! (ys ! j) = xs ! j))
         \<and> (\<forall>x. x \<notin> \<Union> (set ` set data) \<longrightarrow>
               dict_get d x = Inl KeyError
               \<and> (\<forall>xs. x \<in> set xs \<longrightarrow> reindex_func d xs = Inl KeyError))
         \<and> (\<forall>data'. data' \<noteq> [] \<and> \<Union> (set ` set data') = \<Union> (set ` set data) \<longrightarrow>
               group_index data' = Inr (d, u))"
proof -
  have ids: "\<And>dt :: int list list. \<Union> (set ` set dt) = set (concat dt)" by simp
  note c = group_index_cases[OF assms]
  have dom: "dom d = \<Union> (set ` set data)"
    unfolding ids by (rule group_index_dom[OF assms])
  have get: "\<forall>x. x \<in> \<Union> (set ` set data) \<longleftrightarrow> (\<exists>i. dict_get d x = Inr i)"
  proof -
    have "\<And>x. (\<exists>i. dict_get d x = Inr i) \<longleftrightarrow> x \<in> dom d"
      by (auto simp: dict_get_def split: option.splits)
    then show ?thesis unfolding dom[symmetric] by simp
  qed
  have one: "\<forall>x \<in> \<Union> (set ` set data).
               \<exists>i. dict_get d x = Inr i \<and> i < length u \<and> u ! i = x \<and> reindex_func d [x] = Inr [i]"
  proof
    fix x assume "x \<in> \<Union> (set ` set data)"
    then obtain i where i: "d x = Some i" using dom by blast
    then have "i < length u \<and> u ! i = x" using c(3) by blast
    moreover have "dict_get d x = Inr i" using i by (simp add: dict_get_def)
    moreover have "reindex_func d [x] = Inr [i]" using i by (simp add: reindex_func_Inr_iff)
    ultimately show "\<exists>i. dict_get d x = Inr i \<and> i < length u \<and> u ! i = x
                        \<and> reindex_func d [x] = Inr [i]" by blast
  qed
  have tot: "\<forall>xs. (\<exists>ys. reindex_func d xs = Inr ys) \<longleftrightarrow> xs \<noteq> [] \<and> set xs \<subseteq> \<Union> (set ` set data)"
  proof (intro allI iffI)
    fix xs assume "\<exists>ys. reindex_func d xs = Inr ys"
    then obtain ys where "reindex_func d xs = Inr ys" by blast
    then have ne: "xs \<noteq> []" and lk: "\<forall>j < length xs. d (xs ! j) = Some (ys ! j)"
      by (simp_all add: reindex_func_Inr_iff)
    have "set xs \<subseteq> dom d"
    proof
      fix x assume "x \<in> set xs"
      then obtain j where "j < length xs" "xs ! j = x" by (auto simp: in_set_conv_nth)
      with lk show "x \<in> dom d" by auto
    qed
    with ne dom show "xs \<noteq> [] \<and> set xs \<subseteq> \<Union> (set ` set data)" by simp
  next
    fix xs assume "xs \<noteq> [] \<and> set xs \<subseteq> \<Union> (set ` set data)"
    then show "\<exists>ys. reindex_func d xs = Inr ys"
      using reindex_func_defined[of xs d] dom by simp
  qed
  have val: "\<forall>xs ys. reindex_func d xs = Inr ys \<longrightarrow>
               length ys = length xs
               \<and> (\<forall>j < length xs. ys ! j < length u \<and> u ! (ys ! j) = xs ! j)"
  proof (intro allI impI)
    fix xs ys assume "reindex_func d xs = Inr ys"
    then have "length ys = length xs" and "\<forall>j < length xs. d (xs ! j) = Some (ys ! j)"
      by (simp_all add: reindex_func_Inr_iff)
    then show "length ys = length xs
               \<and> (\<forall>j < length xs. ys ! j < length u \<and> u ! (ys ! j) = xs ! j)"
      using c(3) by auto
  qed
  have absent: "\<forall>x. x \<notin> \<Union> (set ` set data) \<longrightarrow>
               dict_get d x = Inl KeyError
               \<and> (\<forall>xs. x \<in> set xs \<longrightarrow> reindex_func d xs = Inl KeyError)"
  proof (intro allI impI)
    fix x assume "x \<notin> \<Union> (set ` set data)"
    with dom have none: "d x = None" by blast
    then show "dict_get d x = Inl KeyError
               \<and> (\<forall>xs. x \<in> set xs \<longrightarrow> reindex_func d xs = Inl KeyError)"
      using reindex_func_KeyError[of x _ d] by (simp add: dict_get_def)
  qed
  have det: "\<forall>data'. data' \<noteq> [] \<and> \<Union> (set ` set data') = \<Union> (set ` set data) \<longrightarrow>
               group_index data' = Inr (d, u)"
  proof (intro allI impI)
    fix data' :: "int list list"
    assume a: "data' \<noteq> [] \<and> \<Union> (set ` set data') = \<Union> (set ` set data)"
    then have "set (concat data') = set (concat data)" unfolding ids by simp
    then have "np_unique (concat data') = np_unique (concat data)"
      by (simp add: np_unique_sorted_list_of_set)
    then have "group_index data' = group_index data"
      using a group_index_Inr[of data'] group_index_Inr[OF group_index_cases(1)[OF assms]]
      by simp
    then show "group_index data' = Inr (d, u)" using assms by simp
  qed
  from dom get one tot val absent det show ?thesis by (intro conjI)
qed

theorem group_index_total_on_inputs_witness:
  "\<exists>d u. group_index [[3, 1], [1, 2]] = Inr (d, u)
     \<and> dom d = \<Union> (set ` set [[3, 1], [1, 2]])
     \<and> (\<exists>i. dict_get d 3 = Inr i \<and> i < length u \<and> u ! i = 3 \<and> reindex_func d [3] = Inr [i])
     \<and> (\<exists>ys. reindex_func d [3, 1, 1, 2] = Inr ys \<and> length ys = length [3, 1, 1, 2 :: int]
            \<and> (\<forall>j < length [3, 1, 1, 2 :: int]. ys ! j < length u \<and> u ! (ys ! j) = [3, 1, 1, 2] ! j))
     \<and> dict_get d 7 = Inl KeyError
     \<and> reindex_func d [1, 7] = Inl KeyError
     \<and> group_index [[2], [1, 3, 3]] = Inr (d, u)"
proof -
  obtain d u where gi: "group_index [[3, 1], [1, 2]] = Inr (d, u)"
    using group_index_Inr[of "[[3, 1], [1, 2]]"] by blast
  note t = group_index_total_on_inputs[OF gi]
  have a: "(7::int) \<notin> \<Union> (set ` set [[3, 1], [1, 2]])" by simp
  have b: "[[2], [1, 3, 3 :: int]] \<noteq> []
           \<and> \<Union> (set ` set [[2], [1, 3, 3 :: int]]) = \<Union> (set ` set [[3, 1], [1, 2]])"
    by auto
  have m3: "(3::int) \<in> \<Union> (set ` set [[3, 1], [1, 2]])" by simp
  have sub: "[3, 1, 1, 2 :: int] \<noteq> [] \<and> set [3, 1, 1, 2 :: int] \<subseteq> \<Union> (set ` set [[3, 1], [1, 2]])"
    by simp
  from t have dm: "dom d = \<Union> (set ` set [[3, 1], [1, 2]])" by (elim conjE)
  from t have c3: "\<forall>x \<in> \<Union> (set ` set [[3, 1], [1, 2]]).
               \<exists>i. dict_get d x = Inr i \<and> i < length u \<and> u ! i = x \<and> reindex_func d [x] = Inr [i]"
    by (elim conjE)
  from c3 m3 have s1: "\<exists>i. dict_get d 3 = Inr i \<and> i < length u \<and> u ! i = 3 \<and> reindex_func d [3] = Inr [i]"
    by (rule bspec)
  from t have c4: "\<forall>xs. (\<exists>ys. reindex_func d xs = Inr ys) \<longleftrightarrow> xs \<noteq> [] \<and> set xs \<subseteq> \<Union> (set ` set [[3, 1], [1, 2]])"
    by (elim conjE)
  from c4[rule_format, of "[3, 1, 1, 2]"] sub obtain ys where ys: "reindex_func d [3, 1, 1, 2] = Inr ys"
    by blast
  from t have c5: "\<forall>xs ys. reindex_func d xs = Inr ys \<longrightarrow>
               length ys = length xs
               \<and> (\<forall>j < length xs. ys ! j < length u \<and> u ! (ys ! j) = xs ! j)"
    by (elim conjE)
  from c5[rule_format, OF ys] ys
  have s2: "\<exists>ys. reindex_func d [3, 1, 1, 2] = Inr ys \<and> length ys = length [3, 1, 1, 2 :: int]
            \<and> (\<forall>j < length [3, 1, 1, 2 :: int]. ys ! j < length u \<and> u ! (ys ! j) = [3, 1, 1, 2] ! j)"
    by blast
  from t have c6: "\<forall>x. x \<notin> \<Union> (set ` set [[3, 1], [1, 2]]) \<longrightarrow>
               dict_get d x = Inl KeyError
               \<and> (\<forall>xs. x \<in> set xs \<longrightarrow> reindex_func d xs = Inl KeyError)"
    by (elim conjE)
  from c6[rule_format, OF a] have k1: "dict_get d 7 = Inl KeyError"
    and k0: "\<forall>xs. 7 \<in> set xs \<longrightarrow> reindex_func d xs = Inl KeyError" by simp_all
  from k0[rule_format, of "[1, 7]"] have k2: "reindex_func d [1, 7] = Inl KeyError" by simp
  from t have c7: "\<forall>data'. data' \<noteq> [] \<and> \<Union> (set ` set data') = \<Union> (set ` set [[3, 1], [1, 2]]) \<longrightarrow>
               group_index data' = Inr (d, u)"
    by (elim conjE)
  from c7[rule_format, OF b] have dt: "group_index [[2], [1, 3, 3]] = Inr (d, u)" .
  from gi dm s1 s2 k1 k2 dt show ?thesis by (intro exI[of _ d] exI[of _ u] conjI)
qed

subsection \<open>The negative sampler: auxiliary facts\<close>

lemma randint_Inr:
  "randint n sz g = Inr (xs, g') \<Longrightarrow>
     xs = map (\<lambda>i. int (g i) mod n) [0..<nat sz] \<and> g' = (\<lambda>i. g (i + nat sz)) \<and> 0 \<le> sz
     \<and> (0 < sz \<longrightarrow> 0 < n \<and> n \<le> 2 ^ 63)"
  by (auto simp: randint_def split: if_splits)

lemma randint_range:
  assumes "randint n sz g = Inr (xs, g')"
  shows "int (length xs) = sz" and "\<forall>x \<in> set xs. 0 \<le> x \<and> x < n"
proof -
  note r = randint_Inr[OF assms]
  show "int (length xs) = sz" using r by simp
  show "\<forall>x \<in> set xs. 0 \<le> x \<and> x < n"
  proof
    fix x assume "x \<in> set xs"
    then have "xs \<noteq> []" by auto
    with r have "0 < n" by auto
    with r \<open>x \<in> set xs\<close> show "0 \<le> x \<and> x < n" by auto
  qed
qed


lemma map_cand_pick: "map_cand c xs = map (pick c) xs"
  by (cases c) (simp_all add: map_cand_def map_idI)

lemma pick_in_cand_ids: "0 \<le> i \<Longrightarrow> i < n_cand c \<Longrightarrow> pick c i \<in> cand_ids c"
  by (cases c) auto

lemma cand_ids_pick: "x \<in> cand_ids c \<Longrightarrow> \<exists>i. 0 \<le> i \<and> i < n_cand c \<and> pick c i = x"
proof (cases c)
  case (CandInt n)
  assume "x \<in> cand_ids c"
  with CandInt show ?thesis by auto
next
  case (CandArr ec)
  assume "x \<in> cand_ids c"
  with CandArr obtain j where "j < length ec" "ec ! j = x" by (auto simp: in_set_conv_nth)
  with CandArr show ?thesis by (intro exI[of _ "int j"]) auto
qed

lemma drawn_in_cand_ids:
  assumes "randint (n_cand c) sz g = Inr (xs, g')"
  shows "set (map_cand c xs) \<subseteq> cand_ids c"
  using randint_range(2)[OF assms] by (auto simp: map_cand_pick intro: pick_in_cand_ids)

lemma mask_select_map: "mask_select xs (map P xs) = filter P xs"
  unfolding mask_select_def by (induction xs) auto

lemma mask_select_in1d:
  "mask_select xs (in1d_invert xs fs) =
     (case fs of IdSeq f \<Rightarrow> filter (\<lambda>x. x \<notin> set f) xs | PySet s \<Rightarrow> xs)"
  by (cases fs) (simp_all add: mask_select_map)

lemma sampler_loop_post_aux:
  assumes "sampler_loop k c fs l num g = Some y"
  shows "\<forall>l' g'. y = Inr (l', g') \<longrightarrow> num = int (length (concat l)) \<longrightarrow>
           set (concat l) \<subseteq> cand_ids c \<longrightarrow>
           (\<forall>f. fs = IdSeq f \<longrightarrow> set (concat l) \<inter> set f = {}) \<longrightarrow>
           k \<le> int (length (concat l')) \<and> set (concat l') \<subseteq> cand_ids c
           \<and> (\<forall>f. fs = IdSeq f \<longrightarrow> set (concat l') \<inter> set f = {})"
proof (rule sampler_loop.raw_induct[where P = "\<lambda>k c fs l num g y.
         \<forall>l' g'. y = Inr (l', g') \<longrightarrow> num = int (length (concat l)) \<longrightarrow>
           set (concat l) \<subseteq> cand_ids c \<longrightarrow>
           (\<forall>f. fs = IdSeq f \<longrightarrow> set (concat l) \<inter> set f = {}) \<longrightarrow>
           k \<le> int (length (concat l')) \<and> set (concat l') \<subseteq> cand_ids c
           \<and> (\<forall>f. fs = IdSeq f \<longrightarrow> set (concat l') \<inter> set f = {})", OF _ assms])
  fix loop :: "int \<Rightarrow> cand \<Rightarrow> filter_coll \<Rightarrow> int list list \<Rightarrow> int \<Rightarrow> rng
     \<Rightarrow> (error + (int list list \<times> rng)) option"
  fix k c fs l num g y
  assume IH: "\<And>k c fs l num g y. loop k c fs l num g = Some y \<Longrightarrow>
         \<forall>l' g'. y = Inr (l', g') \<longrightarrow> num = int (length (concat l)) \<longrightarrow>
           set (concat l) \<subseteq> cand_ids c \<longrightarrow>
           (\<forall>f. fs = IdSeq f \<longrightarrow> set (concat l) \<inter> set f = {}) \<longrightarrow>
           k \<le> int (length (concat l')) \<and> set (concat l') \<subseteq> cand_ids c
           \<and> (\<forall>f. fs = IdSeq f \<longrightarrow> set (concat l') \<inter> set f = {})"
    and step: "(if num < k then
        (case randint (n_cand c) (2 * k) g of
           Inl e \<Rightarrow> Some (Inl e)
         | Inr (drawn, g') \<Rightarrow>
             (let new_e = map_cand c drawn;
                  msk = in1d_invert new_e fs;
                  new_e = mask_select new_e msk
              in loop k c fs (l @ [new_e]) (num + int (length new_e)) g'))
      else Some (Inr (l, g))) = Some y"
  show "\<forall>l' g'. y = Inr (l', g') \<longrightarrow> num = int (length (concat l)) \<longrightarrow>
           set (concat l) \<subseteq> cand_ids c \<longrightarrow>
           (\<forall>f. fs = IdSeq f \<longrightarrow> set (concat l) \<inter> set f = {}) \<longrightarrow>
           k \<le> int (length (concat l')) \<and> set (concat l') \<subseteq> cand_ids c
           \<and> (\<forall>f. fs = IdSeq f \<longrightarrow> set (concat l') \<inter> set f = {})"
  proof (cases "num < k")
    case False
    with step show ?thesis by auto
  next
    case True
    show ?thesis
    proof (cases "randint (n_cand c) (2 * k) g")
      case (Inl e)
      with True step show ?thesis by auto
    next
      case (Inr p)
      obtain drawn g1 where p: "p = (drawn, g1)" by (cases p)
      define new_e where "new_e = mask_select (map_cand c drawn) (in1d_invert (map_cand c drawn) fs)"
      from True Inr p step
      have rec: "loop k c fs (l @ [new_e]) (num + int (length new_e)) g1 = Some y"
        by (simp add: new_e_def Let_def)
      have sub: "set new_e \<subseteq> cand_ids c"
        using drawn_in_cand_ids[OF Inr[unfolded p]]
        by (cases fs) (auto simp: new_e_def mask_select_map)
      have flt: "\<forall>f. fs = IdSeq f \<longrightarrow> set new_e \<inter> set f = {}"
        by (auto simp: new_e_def mask_select_map)
      show ?thesis
      proof (intro allI impI)
        fix l' g'
        assume y: "y = Inr (l', g')" and n: "num = int (length (concat l))"
          and s: "set (concat l) \<subseteq> cand_ids c"
          and f: "\<forall>f. fs = IdSeq f \<longrightarrow> set (concat l) \<inter> set f = {}"
        have n': "num + int (length new_e) = int (length (concat (l @ [new_e])))"
          using n by simp
        have s': "set (concat (l @ [new_e])) \<subseteq> cand_ids c"
          using s sub by simp
        have f': "\<forall>f. fs = IdSeq f \<longrightarrow> set (concat (l @ [new_e])) \<inter> set f = {}"
          using f flt by (simp add: Int_Un_distrib2)
        from IH[OF rec] y n' s' f'
        show "k \<le> int (length (concat l')) \<and> set (concat l') \<subseteq> cand_ids c
              \<and> (\<forall>f. fs = IdSeq f \<longrightarrow> set (concat l') \<inter> set f = {})"
          by blast
      qed
    qed
  qed
qed

lemma sampler_loop_post:
  assumes "sampler_loop k c fs [] 0 g = Some (Inr (l', g'))"
  shows "k \<le> int (length (concat l'))" and "set (concat l') \<subseteq> cand_ids c"
    and "\<And>f. fs = IdSeq f \<Longrightarrow> set (concat l') \<inter> set f = {}"
  using sampler_loop_post_aux[OF assms] by auto


lemma bind_res_Inr_iff:
  "bind_res m f = Some (Inr y) \<longleftrightarrow> (\<exists>x. m = Some (Inr x) \<and> f x = Some (Inr y))"
  by (auto simp: bind_res_def split: option.splits sum.splits)


lemma bind_err_Inr_iff:
  "bind_err m f = Inr y \<longleftrightarrow> (\<exists>x. m = Inr x \<and> f x = Inr y)"
  by (auto simp: bind_err_def split: sum.splits)

lemma uniform_sampler_filtered_Inr:
  assumes "uniform_sampler k c (Some fs) g = Some (Inr (xs, g'))"
  shows "0 < k" and "int (length xs) = k" and "set xs \<subseteq> cand_ids c"
    and "\<And>f. fs = IdSeq f \<Longrightarrow> set xs \<inter> set f = {}"
    and "\<exists>l. sampler_loop k c fs [] 0 g = Some (Inr (l, g')) \<and> xs = take (nat k) (concat l)"
proof -
  from assms obtain l where loop: "sampler_loop k c fs [] 0 g = Some (Inr (l, g'))"
    and ne: "l \<noteq> []" and xs: "xs = slice_to (concat l) k"
    by (auto simp: uniform_sampler_def bind_res_Inr_iff np_concatenate_def split: if_splits)
  show k: "0 < k"
  proof (rule ccontr)
    assume "\<not> 0 < k"
    then have "sampler_loop k c fs [] 0 g = Some (Inr ([], g))"
      by (subst sampler_loop.simps) simp
    with loop ne show False by simp
  qed
  note post = sampler_loop_post[OF loop]
  from k xs have xs': "xs = take (nat k) (concat l)" by (simp add: slice_to_def)
  show "int (length xs) = k" using post(1) k xs' by simp
  show "set xs \<subseteq> cand_ids c" using post(2) xs' by (meson set_take_subset subset_trans)
  show "\<And>f. fs = IdSeq f \<Longrightarrow> set xs \<inter> set f = {}"
    using post(3) xs' set_take_subset[of "nat k" "concat l"] by blast
  show "\<exists>l. sampler_loop k c fs [] 0 g = Some (Inr (l, g')) \<and> xs = take (nat k) (concat l)"
    using loop xs' by blast
qed

lemma uniform_sampler_None_Inr:
  assumes "uniform_sampler k c None g = Some (Inr (xs, g'))"
  shows "xs = map (\<lambda>i. pick c (int (g i) mod n_cand c)) [0..<nat k]"
    and "g' = (\<lambda>i. g (i + nat k))" and "int (length xs) = k" and "set xs \<subseteq> cand_ids c"
proof -
  from assms have r: "randint (n_cand c) k g = Inr (map (\<lambda>i. int (g i) mod n_cand c) [0..<nat k], g')"
    and xs: "xs = map_cand c (map (\<lambda>i. int (g i) mod n_cand c) [0..<nat k])"
    by (auto simp: uniform_sampler_def split: sum.splits dest: randint_Inr)
  show "xs = map (\<lambda>i. pick c (int (g i) mod n_cand c)) [0..<nat k]"
    using xs by (simp add: map_cand_pick comp_def)
  show "g' = (\<lambda>i. g (i + nat k))" using randint_Inr[OF r] by simp
  show "int (length xs) = k" using randint_Inr[OF r] xs by (simp add: map_cand_pick)
  show "set xs \<subseteq> cand_ids c" using drawn_in_cand_ids[OF r] xs by simp
qed

lemma uniform_sampler_None_returns:
  assumes "0 \<le> k" and "k = 0 \<or> (0 < n_cand c \<and> n_cand c \<le> 2 ^ 63)"
  shows "\<exists>xs g'. uniform_sampler k c None g = Some (Inr (xs, g'))"
  using assms by (auto simp: uniform_sampler_def randint_def)

lemma uniform_sampler_None_total: "uniform_sampler k c None g \<noteq> None"
  by (auto simp: uniform_sampler_def split: sum.splits)

lemma uniform_sampler_None_const:
  assumes "0 < k" and "n_cand c \<le> 2 ^ 63" and "0 \<le> j" and "j < n_cand c"
  shows "uniform_sampler k c None (\<lambda>i. nat j) = Some (Inr (replicate (nat k) (pick c j), \<lambda>i. nat j))"
proof -
  have n: "0 < n_cand c" using assms by linarith
  have "map (\<lambda>i. pick c j) [0..<nat k] = replicate (nat k) (pick c j)"
    by (simp add: map_replicate_const)
  then show ?thesis using assms n
    by (simp add: uniform_sampler_def randint_def map_cand_pick comp_def)
qed






subsection \<open>Claims about the negative sampler\<close>

text \<open>
  Claim C6 (sampling without a filter). With \<^verbatim>\<open>filter_set=None\<close> the call always ends.
  When it returns an array, the array has length \<open>k\<close>, its \<open>i\<close>-th element is the
  candidate selected by the \<open>i\<close>-th draw of an index in \<open>[0, n)\<close> (the index itself
  for an integer domain, the entry of the candidate array otherwise), so every returned
  id is in the candidate domain, and exactly \<open>k\<close> draws are consumed. It returns
  whenever \<open>k = 0\<close>, or \<open>k > 0\<close> and \<open>0 < n \<le> 2^63\<close>. Nothing is excluded: for
  every candidate \<open>e\<close> there are draws for which the result is \<open>k\<close> copies of \<open>e\<close>, so
  ids may repeat and may be the true entity.
\<close>

theorem uniform_sampler_unfiltered:
  "uniform_sampler k c None g \<noteq> None
   \<and> (\<forall>xs g'. uniform_sampler k c None g = Some (Inr (xs, g')) \<longrightarrow>
         int (length xs) = k
         \<and> xs = map (\<lambda>i. pick c (int (g i) mod n_cand c)) [0..<nat k]
         \<and> g' = (\<lambda>i. g (i + nat k))
         \<and> set xs \<subseteq> cand_ids c)
   \<and> (0 \<le> k \<and> (k = 0 \<or> (0 < n_cand c \<and> n_cand c \<le> 2 ^ 63)) \<longrightarrow>
         (\<exists>xs g'. uniform_sampler k c None g = Some (Inr (xs, g'))))
   \<and> (\<forall>e \<in> cand_ids c. 0 < k \<and> n_cand c \<le> 2 ^ 63 \<longrightarrow>
         (\<exists>g0 g'. uniform_sampler k c None g0 = Some (Inr (replicate (nat k) e, g'))))"
proof (intro conjI allI impI ballI)
  show "uniform_sampler k c None g \<noteq> None" by (rule uniform_sampler_None_total)
next
  fix xs g' assume a: "uniform_sampler k c None g = Some (Inr (xs, g'))"
  show "int (length xs) = k" by (rule uniform_sampler_None_Inr(3)[OF a])
  show "xs = map (\<lambda>i. pick c (int (g i) mod n_cand c)) [0..<nat k]"
    by (rule uniform_sampler_None_Inr(1)[OF a])
  show "g' = (\<lambda>i. g (i + nat k))" by (rule uniform_sampler_None_Inr(2)[OF a])
  show "set xs \<subseteq> cand_ids c" by (rule uniform_sampler_None_Inr(4)[OF a])
next
  assume "0 \<le> k \<and> (k = 0 \<or> 0 < n_cand c \<and> n_cand c \<le> 2 ^ 63)"
  then show "\<exists>xs g'. uniform_sampler k c None g = Some (Inr (xs, g'))"
    using uniform_sampler_None_returns[of k c g] by blast
next
  fix e assume e: "e \<in> cand_ids c" and k: "0 < k \<and> n_cand c \<le> 2 ^ 63"
  from cand_ids_pick[OF e] obtain j where j: "0 \<le> j" "j < n_cand c" "pick c j = e" by blast
  from uniform_sampler_None_const[of k c j] k j
  show "\<exists>g0 g'. uniform_sampler k c None g0 = Some (Inr (replicate (nat k) e, g'))" by blast
qed

theorem uniform_sampler_unfiltered_witness:
  "\<exists>xs g'. uniform_sampler 2 (CandArr [10, 20, 30]) None (\<lambda>i. i + 3) = Some (Inr (xs, g'))
     \<and> int (length xs) = 2 \<and> set xs \<subseteq> {10, 20, 30}
     \<and> (\<exists>g0 g''. uniform_sampler 2 (CandArr [10, 20, 30]) None g0 = Some (Inr ([20, 20], g'')))"
proof -
  note t = uniform_sampler_unfiltered[of 2 "CandArr [10, 20, 30]" "\<lambda>i. i + 3"]
  have h: "(0::int) \<le> 2 \<and> ((2::int) = 0 \<or> 0 < n_cand (CandArr [10, 20, 30])
            \<and> n_cand (CandArr [10, 20, 30]) \<le> 2 ^ 63)" by simp
  with t obtain xs g' where
    r: "uniform_sampler 2 (CandArr [10, 20, 30]) None (\<lambda>i. i + 3) = Some (Inr (xs, g'))"
    by blast
  with t have p: "int (length xs) = 2" "set xs \<subseteq> cand_ids (CandArr [10, 20, 30])" by blast+
  have e: "(20::int) \<in> cand_ids (CandArr [10, 20, 30])" by simp
  have k: "(0::int) < 2 \<and> n_cand (CandArr [10, 20, 30]) \<le> 2 ^ 63" by simp
  from t e k obtain g0 g'' where
    "uniform_sampler 2 (CandArr [10, 20, 30]) None g0 = Some (Inr (replicate (nat 2) 20, g''))"
    by blast
  then have "uniform_sampler 2 (CandArr [10, 20, 30]) None g0 = Some (Inr ([20, 20], g''))"
    by (simp add: numeral_2_eq_2)
  with r p show ?thesis by auto
qed

text \<open>
  Claim C2 (sampling with a filter): a returned array has length \<open>k\<close> and holds no id
  of the filter set. For a filter given as a sequence of ids this is the lemma
  \<open>uniform_sampler_filtered_Inr\<close>. It fails at the input
  \<^verbatim>\<open>uniform_sampler(1, 1, {0})\<close>, the filter being a Python \<^verbatim>\<open>set\<close> as in the class
  docstring: both draws are the index \<open>0\<close>, \<^verbatim>\<open>np.in1d\<close> keeps both, and the call
  returns \<open>[0]\<close>, an id of the filter set.
\<close>

theorem uniform_sampler_python_set_not_filtered:
  "uniform_sampler 1 (CandInt 1) (Some (PySet {0})) (\<lambda>i. 0) = Some (Inr ([0], \<lambda>i. 0))
   \<and> 0 \<in> members (PySet {0})"
proof -
  have r: "randint 1 2 (\<lambda>i. 0) = Inr ([0, 0], \<lambda>i. 0)"
    by (simp add: randint_def numeral_2_eq_2)
  have l1: "sampler_loop 1 (CandInt 1) (PySet {0}) [[0, 0]] 2 (\<lambda>i. 0) = Some (Inr ([[0, 0]], \<lambda>i. 0))"
    by (subst sampler_loop.simps) simp
  have l0: "sampler_loop 1 (CandInt 1) (PySet {0}) [] 0 (\<lambda>i. 0) = Some (Inr ([[0, 0]], \<lambda>i. 0))"
    by (subst sampler_loop.simps) (simp add: r map_cand_def mask_select_def l1)
  show ?thesis
    by (simp add: uniform_sampler_def l0 bind_res_def np_concatenate_def slice_to_def)
qed

subsection \<open>The rejection loop: when it ends\<close>
















subsection \<open>Collation: auxiliary facts\<close>

lemma to_batch_Inr:
  assumes "to_batch d all_ents mode h r t neg_ents = Inr b"
  shows "\<exists>h' t' negs'. b = ((h', r, t', negs'), all_ents, mode)
           \<and> reindex_func d h = Inr h' \<and> reindex_func d t = Inr t'
           \<and> map_res (reindex_func d) neg_ents = Inr negs'"
  using assms
  by (auto simp: to_batch_def bind_err_Inr_iff np_stack_def split: if_splits)

lemma collate_fn_label:
  assumes "collate_fn ds data mode fl g = Some (Inr (b, g'))"
  shows "snd (snd b) = mode"
  using assms
  by (auto simp: collate_fn_def Let_def bind_res_Inr_iff split: if_splits dest!: to_batch_Inr)

lemma collate_fn_Inr:
  assumes "collate_fn ds data mode fl g = Some (Inr (b, g'))"
  shows "\<exists>h' t' negs' all_ents neg_ents d c.
           b = ((h', map (fst \<circ> snd) data, t', negs'), all_ents, mode)
           \<and> data \<noteq> []
           \<and> draw_negs ds data mode fl c g = Some (Inr (neg_ents, g'))
           \<and> (neg_mode ds = ''batch'' \<and> c = CandArr all_ents
                \<and> group_index [map fst data, map (snd \<circ> snd) data] = Inr (d, all_ents)
              \<or> neg_mode ds = ''full'' \<and> c = CandInt (num_ents ds)
                \<and> group_index [map fst data, map (snd \<circ> snd) data, concat neg_ents] = Inr (d, all_ents))
           \<and> reindex_func d (map fst data) = Inr h'
           \<and> reindex_func d (map (snd \<circ> snd) data) = Inr t'
           \<and> map_res (reindex_func d) neg_ents = Inr negs'"
proof -
  from assms have ne: "data \<noteq> []" by (auto simp: collate_fn_def split: if_splits)
  consider (batch) "neg_mode ds = ''batch''" | (full) "neg_mode ds \<noteq> ''batch''" "neg_mode ds = ''full''"
    using assms ne by (auto simp: collate_fn_def Let_def split: if_splits)
  then show ?thesis
  proof cases
    case batch
    with assms ne obtain d all_ents neg_ents where
      gi: "group_index [map fst data, map (snd \<circ> snd) data] = Inr (d, all_ents)"
      and dn: "draw_negs ds data mode fl (CandArr all_ents) g = Some (Inr (neg_ents, g'))"
      and tb: "to_batch d all_ents mode (map fst data) (map (fst \<circ> snd) data) (map (snd \<circ> snd) data) neg_ents = Inr b"
      by (auto simp: collate_fn_def Let_def bind_res_Inr_iff)
    from to_batch_Inr[OF tb] gi dn batch ne show ?thesis by blast
  next
    case full
    with assms ne obtain d all_ents neg_ents where
      dn: "draw_negs ds data mode fl (CandInt (num_ents ds)) g = Some (Inr (neg_ents, g'))"
      and gi: "group_index [map fst data, map (snd \<circ> snd) data, concat neg_ents] = Inr (d, all_ents)"
      and tb: "to_batch d all_ents mode (map fst data) (map (fst \<circ> snd) data) (map (snd \<circ> snd) data) neg_ents = Inr b"
      by (auto simp: collate_fn_def Let_def bind_res_Inr_iff np_concatenate_def split: if_splits)
    from to_batch_Inr[OF tb] gi dn full ne show ?thesis by blast
  qed
qed


lemma fl_set_i_Some:
  "fl_set_i fl key = Inr (Some s) \<longleftrightarrow> (\<exists>d. fl = Some d \<and> map_of d key = Some s)"
  by (auto simp: fl_set_i_def split: option.splits if_splits)

lemma uniform_sampler_Inr:
  assumes "uniform_sampler k c fl g = Some (Inr (xs, g'))"
  shows "int (length xs) = k" and "set xs \<subseteq> cand_ids c"
    and "\<And>f. fl = Some (IdSeq f) \<Longrightarrow> set xs \<inter> set f = {}"
proof -
  show "int (length xs) = k"
    using assms uniform_sampler_None_Inr(3) uniform_sampler_filtered_Inr(2) by (cases fl) blast+
  show "set xs \<subseteq> cand_ids c"
    using assms uniform_sampler_None_Inr(4) uniform_sampler_filtered_Inr(3) by (cases fl) blast+
  show "\<And>f. fl = Some (IdSeq f) \<Longrightarrow> set xs \<inter> set f = {}"
    using assms uniform_sampler_filtered_Inr(4) by blast
qed

lemma sample_negs_Inr:
  assumes "sample_negs key k c fl data g = Some (Inr (negs, g'))"
  shows "length negs = length data
         \<and> (\<forall>i < length data. int (length (negs ! i)) = k \<and> set (negs ! i) \<subseteq> cand_ids c
               \<and> (\<forall>f. fl_set_i fl (key (data ! i)) = Inr (Some (IdSeq f)) \<longrightarrow>
                     set (negs ! i) \<inter> set f = {}))"
  using assms
proof (induction data arbitrary: g negs)
  case Nil
  then show ?case by simp
next
  case (Cons x rest)
  from Cons.prems obtain fli neg g1 negs1 where
    fli: "fl_set_i fl (key x) = Inr fli"
    and u: "uniform_sampler k c fli g = Some (Inr (neg, g1))"
    and r: "sample_negs key k c fl rest g1 = Some (Inr (negs1, g'))"
    and negs: "negs = neg # negs1"
    by (auto simp: bind_res_Inr_iff)
  note IH = Cons.IH[OF r]
  note us = uniform_sampler_Inr[OF u]
  show ?case
  proof (intro conjI allI impI)
    show "length negs = length (x # rest)" using IH negs by simp
  next
    fix i assume i: "i < length (x # rest)"
    show "int (length (negs ! i)) = k" using i IH us(1) negs by (cases i) auto
    show "set (negs ! i) \<subseteq> cand_ids c" using i IH us(2) negs by (cases i) auto
  next
    fix i f assume i: "i < length (x # rest)"
      and f: "fl_set_i fl (key ((x # rest) ! i)) = Inr (Some (IdSeq f))"
    show "set (negs ! i) \<inter> set f = {}"
    proof (cases i)
      case 0
      with f fli have "fli = Some (IdSeq f)" by simp
      from us(3)[OF this] 0 negs show ?thesis by simp
    next
      case (Suc j)
      with i f IH negs show ?thesis by auto
    qed
  qed
qed



lemma mixed_collate_fn_fst: "fst (mixed_collate_fn ds data g) = ds\<lparr>step := step ds + 1\<rparr>"
  by (simp add: mixed_collate_fn_def Let_def)

lemma after_mixed_calls_eq:
  "after_mixed_calls ds calls = ds\<lparr>step := step ds + int (length calls)\<rparr>"
proof (induction calls arbitrary: ds)
  case Nil
  then show ?case by (simp add: after_mixed_calls_def)
next
  case (Cons call calls)
  obtain data g where call: "call = (data, g)" by (cases call)
  have "after_mixed_calls ds (call # calls) = after_mixed_calls (ds\<lparr>step := step ds + 1\<rparr>) calls"
    by (simp add: after_mixed_calls_def call mixed_collate_fn_fst)
  then show ?case by (simp add: Cons.IH)
qed

lemma KGDataset_init_step: "KGDataset_init trs ne nn m fm fd = Inr ds \<Longrightarrow> step ds = 0"
  by (auto simp: KGDataset_init_def split: if_splits option.splits)

lemma mixed_collate_fn_snd:
  "snd (mixed_collate_fn ds data g) =
     (if (step ds + 1) mod 2 = 0
      then head_collate_fn (ds\<lparr>step := step ds + 1\<rparr>) data g
      else tail_collate_fn (ds\<lparr>step := step ds + 1\<rparr>) data g)"
  by (simp add: mixed_collate_fn_def Let_def head_collate_fn_def tail_collate_fn_def)

lemma head_collate_fn_label:
  "head_collate_fn ds data g = Some (Inr (b, g')) \<Longrightarrow> snd (snd b) = ''head''"
  by (auto simp: head_collate_fn_def bind_res_Inr_iff dest: collate_fn_label)

lemma tail_collate_fn_label:
  "tail_collate_fn ds data g = Some (Inr (b, g')) \<Longrightarrow> snd (snd b) = ''tail''"
  by (auto simp: tail_collate_fn_def bind_res_Inr_iff dest: collate_fn_label)

subsection \<open>Claims about collation\<close>

text \<open>
  Claim C4 (mixed mode alternates). Take a dataset as the constructor builds it, its
  counter at \<open>0\<close>, and any sequence of earlier \<^verbatim>\<open>mixed_collate_fn\<close> calls on it. The
  next call is the \<open>n\<close>-th, \<open>n\<close> being the number of earlier calls plus one. It leaves
  the counter at \<open>n\<close>, and it is the tail collation if \<open>n\<close> is odd and the head collation
  if \<open>n\<close> is even, so the first call corrupts tails and the side changes with every
  call; a batch it returns carries that side as its label.
\<close>
theorem mixed_collate_alternates:
  assumes "KGDataset_init trs ne nn m fm fd = Inr ds0"
  shows "step (fst (mixed_collate_fn (after_mixed_calls ds0 calls) data g)) = int (length calls) + 1
       \<and> snd (mixed_collate_fn (after_mixed_calls ds0 calls) data g) =
           (if odd (length calls + 1)
            then tail_collate_fn (fst (mixed_collate_fn (after_mixed_calls ds0 calls) data g)) data g
            else head_collate_fn (fst (mixed_collate_fn (after_mixed_calls ds0 calls) data g)) data g)
       \<and> (\<forall>b g'. snd (mixed_collate_fn (after_mixed_calls ds0 calls) data g) = Some (Inr (b, g')) \<longrightarrow>
             snd (snd b) = (if odd (length calls + 1) then ''tail'' else ''head''))"
proof -
  define ds where "ds = after_mixed_calls ds0 calls"
  have st: "step ds = int (length calls)"
    unfolding ds_def after_mixed_calls_eq using KGDataset_init_step[OF assms] by simp
  have par: "(step ds + 1) mod 2 = 0 \<longleftrightarrow> \<not> odd (length calls + 1)"
    unfolding st by presburger
  have a: "step (fst (mixed_collate_fn ds data g)) = int (length calls) + 1"
    by (simp add: mixed_collate_fn_fst st)
  have b: "snd (mixed_collate_fn ds data g) =
           (if odd (length calls + 1)
            then tail_collate_fn (fst (mixed_collate_fn ds data g)) data g
            else head_collate_fn (fst (mixed_collate_fn ds data g)) data g)"
    unfolding mixed_collate_fn_snd mixed_collate_fn_fst par by simp
  have c: "\<forall>b g'. snd (mixed_collate_fn ds data g) = Some (Inr (b, g')) \<longrightarrow>
             snd (snd b) = (if odd (length calls + 1) then ''tail'' else ''head'')"
    unfolding b using head_collate_fn_label tail_collate_fn_label by (auto split: if_splits)
  from a b c show ?thesis unfolding ds_def by blast
qed

theorem mixed_collate_alternates_witness:
  "\<exists>ds0. KGDataset_init [(0, 0, 1)] 2 1 ''full'' False None = Inr ds0
     \<and> step (fst (mixed_collate_fn (after_mixed_calls ds0 [([(0, 0, 1)], \<lambda>i. 0)]) [(0, 0, 1)] (\<lambda>i. 1))) = 2
     \<and> (\<forall>b g'. snd (mixed_collate_fn (after_mixed_calls ds0 [([(0, 0, 1)], \<lambda>i. 0)]) [(0, 0, 1)] (\<lambda>i. 1))
                  = Some (Inr (b, g')) \<longrightarrow> snd (snd b) = ''head'')"
proof -
  obtain ds0 where i: "KGDataset_init [(0, 0, 1)] 2 1 ''full'' False None = Inr ds0"
    by (simp add: KGDataset_init_def)
  from mixed_collate_alternates[OF i, of "[([(0, 0, 1)], \<lambda>i. 0)]" "[(0, 0, 1)]" "\<lambda>i. 1"] i
  show ?thesis by (intro exI[of _ ds0]) simp
qed

lemma KGDataset_init_unfiltered:
  "KGDataset_init trs ne nn m False fd =
     Inr \<lparr>triplets = trs, num_ents = ne, num_negs = nn, neg_mode = m, filter_mode = False,
          filter_dict = [''head'' \<mapsto> None, ''tail'' \<mapsto> None], step = 0\<rparr>"
  by (simp add: KGDataset_init_def)

lemma length_concat_uniform:
  "(\<And>x. x \<in> set xs \<Longrightarrow> length x = n) \<Longrightarrow> length (concat xs) = length xs * n"
  by (induction xs) auto

lemma length_np_unique_le: "length (np_unique xs) \<le> length xs"
  by (simp add: np_unique_def length_remdups_leq)

lemma length_np_unique_bounded:
  assumes "set xs \<subseteq> {0..<n}"
  shows "int (length (np_unique xs)) \<le> max 0 n"
proof -
  have "length (np_unique xs) = card (set (np_unique xs))"
    using distinct_card[OF np_unique_distinct, of xs] by simp
  also have "\<dots> \<le> card {0..<n}"
    using assms by (intro card_mono) (auto simp: np_unique_set)
  finally show ?thesis by simp
qed

lemma draw_negs_Inr:
  assumes "draw_negs ds data mode fl c g = Some (Inr (negs, g'))"
  shows "length negs = length data"
    and "\<And>i. i < length data \<Longrightarrow> int (length (negs ! i)) = num_negs ds"
    and "\<And>i. i < length data \<Longrightarrow> set (negs ! i) \<subseteq> cand_ids c"
proof -
  from assms obtain key where "sample_negs key (num_negs ds) c fl data g = Some (Inr (negs, g'))"
    by (auto simp: draw_negs_def split: if_splits)
  note s = sample_negs_Inr[OF this]
  show "length negs = length data" using s by blast
  show "\<And>i. i < length data \<Longrightarrow> int (length (negs ! i)) = num_negs ds" using s by blast
  show "\<And>i. i < length data \<Longrightarrow> set (negs ! i) \<subseteq> cand_ids c" using s by blast
qed

text \<open>
  Claim C7 (vocabulary size in full mode). When \<^verbatim>\<open>_collate_fn\<close> returns in
  \<^verbatim>\<open>'full'\<close> mode, its vocabulary is the result of \<^verbatim>\<open>group_index\<close> on the heads, the
  tails and all sampled negatives together; for a batch of \<open>B\<close> triplets it has at
  most \<open>B * (2 + num_negs)\<close> entries, and at most \<open>num_ents\<close> entries when all heads
  and tails are in \<open>[0, num_ents)\<close>.
\<close>
theorem full_mode_vocabulary_bound:
  assumes "neg_mode ds = ''full''"
    and "collate_fn ds data mode fl g = Some (Inr (((h', r', t', negs'), all_ents, lbl), g'))"
  shows "(\<exists>neg_ents d.
            draw_negs ds data mode fl (CandInt (num_ents ds)) g = Some (Inr (neg_ents, g'))
            \<and> group_index [map fst data, map (snd \<circ> snd) data, concat neg_ents] = Inr (d, all_ents))
       \<and> int (length all_ents) \<le> int (length data) * (2 + num_negs ds)
       \<and> ((\<forall>(h, r, t) \<in> set data. 0 \<le> h \<and> h < num_ents ds \<and> 0 \<le> t \<and> t < num_ents ds) \<longrightarrow>
             int (length all_ents) \<le> num_ents ds)"
proof -
  from collate_fn_Inr[OF assms(2)] assms(1)
  obtain neg_ents d where
    ne: "data \<noteq> []"
    and dn: "draw_negs ds data mode fl (CandInt (num_ents ds)) g = Some (Inr (neg_ents, g'))"
    and gi: "group_index [map fst data, map (snd \<circ> snd) data, concat neg_ents] = Inr (d, all_ents)"
    by auto
  note dr = draw_negs_Inr[OF dn]
  have all: "all_ents = np_unique (map fst data @ map (snd \<circ> snd) data @ concat neg_ents)"
    using group_index_cases(2)[OF gi] by simp
  have k0: "0 \<le> num_negs ds"
  proof -
    from ne have "0 < length data" by simp
    from dr(2)[OF this] show ?thesis by linarith
  qed
  have "\<And>x. x \<in> set neg_ents \<Longrightarrow> length x = nat (num_negs ds)"
  proof -
    fix x assume "x \<in> set neg_ents"
    then obtain i where "i < length neg_ents" "neg_ents ! i = x" by (auto simp: in_set_conv_nth)
    with dr(1) dr(2)[of i] show "length x = nat (num_negs ds)" by auto
  qed
  then have lc: "length (concat neg_ents) = length data * nat (num_negs ds)"
    using length_concat_uniform[of neg_ents "nat (num_negs ds)"] dr(1) by simp
  have "length all_ents \<le> length data + length data + length data * nat (num_negs ds)"
    unfolding all using length_np_unique_le[of "map fst data @ map (snd \<circ> snd) data @ concat neg_ents"]
    by (simp add: lc)
  then have "int (length all_ents) \<le> int (length data + length data + length data * nat (num_negs ds))"
    by (rule iffD2[OF of_nat_le_iff])
  also have "\<dots> = int (length data) * (2 + num_negs ds)"
    using k0 by (simp add: algebra_simps)
  finally have b1: "int (length all_ents) \<le> int (length data) * (2 + num_negs ds)" .
  have b2: "(\<forall>(h, r, t) \<in> set data. 0 \<le> h \<and> h < num_ents ds \<and> 0 \<le> t \<and> t < num_ents ds) \<longrightarrow>
             int (length all_ents) \<le> num_ents ds"
  proof
    assume rng: "\<forall>(h, r, t) \<in> set data. 0 \<le> h \<and> h < num_ents ds \<and> 0 \<le> t \<and> t < num_ents ds"
    from ne obtain x where x: "x \<in> set data" by (cases data) auto
    with rng have pos: "0 < num_ents ds" by (cases x) force
    have "set (concat neg_ents) \<subseteq> {0..<num_ents ds}"
    proof
      fix e assume "e \<in> set (concat neg_ents)"
      then obtain row where "row \<in> set neg_ents" "e \<in> set row" by auto
      then obtain i where "i < length neg_ents" "neg_ents ! i = row" by (auto simp: in_set_conv_nth)
      with dr(1) dr(3)[of i] \<open>e \<in> set row\<close> show "e \<in> {0..<num_ents ds}" by auto
    qed
    moreover have "set (map fst data) \<subseteq> {0..<num_ents ds}" using rng by force
    moreover have "set (map (snd \<circ> snd) data) \<subseteq> {0..<num_ents ds}" using rng by force
    ultimately have "set (map fst data @ map (snd \<circ> snd) data @ concat neg_ents) \<subseteq> {0..<num_ents ds}"
      by simp
    from length_np_unique_bounded[OF this] pos show "int (length all_ents) \<le> num_ents ds"
      unfolding all by simp
  qed
  from dn gi b1 b2 show ?thesis by blast
qed

lemma test_getitem_normal:
  assumes "test_mode ds = ''normal''" and "test_getitem ds index = Inr x"
  shows "fst (snd x) = test_cand ds" and "snd (snd (fst x)) = None \<longleftrightarrow> test_t ds = None"
  using assms
  by (auto simp: test_getitem_def bind_err_Inr_iff split: option.splits if_splits)

lemma to_tensor_opt_Inr:
  "to_tensor_opt xs = Inr ts \<longleftrightarrow> length ts = length xs \<and> (\<forall>j < length xs. xs ! j = Some (ts ! j))"
proof -
  have "list_all (\<lambda>x. x \<noteq> None) xs \<Longrightarrow> \<forall>j < length xs. xs ! j = Some (map the xs ! j)"
    by (auto simp: list_all_length)
  moreover have "length ts = length xs \<Longrightarrow> \<forall>j < length xs. xs ! j = Some (ts ! j) \<Longrightarrow>
                 list_all (\<lambda>x. x \<noteq> None) xs \<and> map the xs = ts"
    by (auto simp: list_all_length intro!: nth_equalityI)
  ultimately show ?thesis by (auto simp: to_tensor_opt_def)
qed

text \<open>
  Claim C9 (evaluation batches in normal mode), for a non-empty batch of items that
  \<^verbatim>\<open>__getitem__\<close> returned. When \<^verbatim>\<open>collate_fn\<close> returns, the dataset's
  \<^verbatim>\<open>'candidate'\<close> entry is an integer \<open>c\<close> and the result is the label \<^verbatim>\<open>'normal'\<close>,
  the heads, relations and tails of the items in order (three arrays of the batch's
  length), one candidate row \<open>0, ..., c - 1\<close> built from the first item's candidate
  field, and \<^verbatim>\<open>None\<close> for the correct index. It returns whenever the dataset has tails
  and its \<^verbatim>\<open>'candidate'\<close> entry is an integer.
\<close>
theorem test_collate_normal:
  assumes "test_mode ds = ''normal''" and "data \<noteq> []"
    and "\<forall>x \<in> set data. \<exists>index. test_getitem ds index = Inr x"
  shows "(\<forall>b. test_collate_fn ds data = Inr b \<longrightarrow>
            (\<exists>c ts. test_cand ds = PInt c
               \<and> b = (''normal'',
                      (map (\<lambda>x. fst (fst x)) data, map (\<lambda>x. fst (snd (fst x))) data, Some ts,
                       T2 [map int [0..<nat c]]),
                      None)
               \<and> length ts = length data
               \<and> (\<forall>j < length data. snd (snd (fst (data ! j))) = Some (ts ! j))))
       \<and> (test_t ds \<noteq> None \<and> (\<exists>c. test_cand ds = PInt c) \<longrightarrow>
            (\<exists>b. test_collate_fn ds data = Inr b))"
proof (intro conjI allI impI)
  fix b assume b: "test_collate_fn ds data = Inr b"
  from assms(2) obtain x0 rest where data: "data = x0 # rest" by (cases data) auto
  then have x0: "py_index data 0 = Inr x0" by (simp add: py_index_def)
  from assms(1,3) data have c0: "fst (snd x0) = test_cand ds"
    using test_getitem_normal(1)[of ds _ x0] by auto
  from b assms(1) x0 obtain ts cd where
    ts: "to_tensor_opt (map (\<lambda>x. snd (snd (fst x))) data) = Inr ts"
    and cd: "arange_row (fst (snd x0)) = Inr cd"
    and bb: "b = (''normal'', (map (\<lambda>x. fst (fst x)) data, map (\<lambda>x. fst (snd (fst x))) data, Some ts, cd), None)"
    by (auto simp: test_collate_fn_def Let_def bind_err_Inr_iff)
  from cd c0 obtain c where c: "test_cand ds = PInt c" "cd = T2 [map int [0..<nat c]]"
    by (cases "test_cand ds") auto
  from ts have "length ts = length data" "\<forall>j < length data. snd (snd (fst (data ! j))) = Some (ts ! j)"
    by (auto simp: to_tensor_opt_Inr)
  with c bb show "\<exists>c ts. test_cand ds = PInt c
               \<and> b = (''normal'',
                      (map (\<lambda>x. fst (fst x)) data, map (\<lambda>x. fst (snd (fst x))) data, Some ts,
                       T2 [map int [0..<nat c]]),
                      None)
               \<and> length ts = length data
               \<and> (\<forall>j < length data. snd (snd (fst (data ! j))) = Some (ts ! j))"
    by blast
next
  assume a: "test_t ds \<noteq> None \<and> (\<exists>c. test_cand ds = PInt c)"
  then obtain c where c: "test_cand ds = PInt c" by blast
  from assms(2) obtain x0 rest where data: "data = x0 # rest" by (cases data) auto
  then have x0: "py_index data 0 = Inr x0" by (simp add: py_index_def)
  from assms(1,3) data have c0: "fst (snd x0) = test_cand ds"
    using test_getitem_normal(1)[of ds _ x0] by auto
  have "list_all (\<lambda>x. x \<noteq> None) (map (\<lambda>x. snd (snd (fst x))) data)"
    using assms(1,3) a test_getitem_normal(2)[of ds] by (fastforce simp: list_all_iff)
  then have "\<exists>ts. to_tensor_opt (map (\<lambda>x. snd (snd (fst x))) data) = Inr ts"
    by (simp add: to_tensor_opt_def)
  with x0 c0 c assms(1) show "\<exists>b. test_collate_fn ds data = Inr b"
    by (auto simp: test_collate_fn_def Let_def bind_err_def)
qed

lemma randint_const:
  assumes "0 < sz" and "0 \<le> j" and "j < n" and "n \<le> 2 ^ 63"
  shows "randint n sz (\<lambda>i. nat j) = Inr (replicate (nat sz) j, \<lambda>i. nat j)"
  using assms by (simp add: randint_def map_replicate_const)

lemma mask_select_replicate: "mask_select (replicate n x) (replicate n True) = replicate n x"
  by (induction n) (simp_all add: mask_select_def)

lemma uniform_sampler_filtered_const:
  assumes "0 < k" and "0 \<le> j" and "j < n_cand c" and "n_cand c \<le> 2 ^ 63"
    and "pick c j \<notin> set f"
  shows "uniform_sampler k c (Some (IdSeq f)) (\<lambda>i. nat j)
         = Some (Inr (replicate (nat k) (pick c j), \<lambda>i. nat j))"
proof -
  define e where "e = pick c j"
  have r: "randint (n_cand c) (2 * k) (\<lambda>i. nat j) = Inr (replicate (nat (2 * k)) j, \<lambda>i. nat j)"
    using assms by (intro randint_const) auto
  have sel: "mask_select (map_cand c (replicate (nat (2 * k)) j))
               (map (\<lambda>x. x \<notin> set f) (map_cand c (replicate (nat (2 * k)) j)))
             = replicate (nat (2 * k)) e"
    using assms(5) by (simp add: map_cand_pick mask_select_replicate e_def)
  have l1: "sampler_loop k c (IdSeq f) [replicate (nat (2 * k)) e] (2 * k) (\<lambda>i. nat j)
            = Some (Inr ([replicate (nat (2 * k)) e], \<lambda>i. nat j))"
    using assms(1) by (subst sampler_loop.simps) simp
  have l0: "sampler_loop k c (IdSeq f) [] 0 (\<lambda>i. nat j)
            = Some (Inr ([replicate (nat (2 * k)) e], \<lambda>i. nat j))"
    using assms(1) by (subst sampler_loop.simps) (simp add: r sel Let_def l1)
  have "take (nat k) (replicate (nat (2 * k)) e) = replicate (nat k) e"
    using assms(1) by (simp add: min_def)
  then show ?thesis using assms(1)
    by (simp add: uniform_sampler_def l0 bind_res_def np_concatenate_def slice_to_def e_def)
qed

lemma group_index_012: "\<exists>d. group_index [[0], [1], [2]] = Inr (d, [0, 1, 2])
   \<and> reindex_func d [0] = Inr [0] \<and> reindex_func d [1] = Inr [1] \<and> reindex_func d [2] = Inr [2]"
  by (simp add: group_index_def np_concatenate_def np_unique_def Let_def dict_of_def
      enumerate_py_def reindex_func_def vectorize_def dict_get_def upt_rec)

lemma group_index_011: "\<exists>d. group_index [[0], [1], [1]] = Inr (d, [0, 1])
   \<and> reindex_func d [0] = Inr [0] \<and> reindex_func d [1] = Inr [1]"
  by (simp add: group_index_def np_concatenate_def np_unique_def Let_def dict_of_def
      enumerate_py_def reindex_func_def vectorize_def dict_get_def upt_rec)

lemma group_index_010: "\<exists>d. group_index [[0], [1], [0]] = Inr (d, [0, 1])
   \<and> reindex_func d [0] = Inr [0] \<and> reindex_func d [1] = Inr [1]"
  by (simp add: group_index_def np_concatenate_def np_unique_def Let_def dict_of_def
      enumerate_py_def reindex_func_def vectorize_def dict_get_def upt_rec)

lemma collate_full_eval:
  "\<exists>g'. collate_fn \<lparr>triplets = [(0, 0, 1)], num_ents = 3, num_negs = 1, neg_mode = ''full'',
             filter_mode = False, filter_dict = [''head'' \<mapsto> None, ''tail'' \<mapsto> None], step = 0\<rparr>
          [(0, 0, 1)] ''tail'' None (\<lambda>i. 2)
        = Some (Inr ((([0], [0], [1], [[2]]), [0, 1, 2], ''tail''), g'))"
proof -
  obtain d where d: "group_index [[0], [1], [2]] = Inr (d, [0, 1, 2])"
    "reindex_func d [0] = Inr [0]" "reindex_func d [1] = Inr [1]" "reindex_func d [2] = Inr [2]"
    using group_index_012 by blast
  have u: "uniform_sampler 1 (CandInt 3) None (\<lambda>i. 2) = Some (Inr ([2], \<lambda>i. 2))"
    using uniform_sampler_None_const[of 1 "CandInt 3" 2] by simp
  show ?thesis
    by (simp add: collate_fn_def Let_def draw_negs_def fl_set_i_def u bind_res_def
        np_concatenate_def d to_batch_def bind_err_def np_stack_def)
qed

theorem full_mode_vocabulary_bound_witness:
  "\<exists>ds b g'. neg_mode ds = ''full'' \<and> num_ents ds = 3 \<and> num_negs ds = 1
     \<and> collate_fn ds [(0, 0, 1)] ''tail'' None (\<lambda>i. 2) = Some (Inr (b, g'))
     \<and> int (length (fst (snd b))) \<le> int (length [(0::int, 0::int, 1::int)]) * (2 + num_negs ds)
     \<and> int (length (fst (snd b))) \<le> num_ents ds"
proof -
  define ds where "ds = \<lparr>triplets = [(0, 0, 1)], num_ents = 3, num_negs = 1, neg_mode = ''full'',
             filter_mode = False, filter_dict = [''head'' \<mapsto> None, ''tail'' \<mapsto> None], step = 0\<rparr>"
  obtain g' where r: "collate_fn ds [(0, 0, 1)] ''tail'' None (\<lambda>i. 2)
        = Some (Inr ((([0], [0], [1], [[2]]), [0, 1, 2], ''tail''), g'))"
    unfolding ds_def using collate_full_eval by blast
  have m: "neg_mode ds = ''full''" by (simp add: ds_def)
  have rng: "\<forall>(h, r, t) \<in> set [(0::int, 0::int, 1::int)].
               0 \<le> h \<and> h < num_ents ds \<and> 0 \<le> t \<and> t < num_ents ds"
    by (simp add: ds_def)
  from full_mode_vocabulary_bound[OF m r] rng
  have "int (length [0, 1, 2 :: int]) \<le> int (length [(0::int, 0::int, 1::int)]) * (2 + num_negs ds)"
    and "int (length [0, 1, 2 :: int]) \<le> num_ents ds"
    by blast+
  with r m show ?thesis
    by (intro exI[of _ ds] exI[of _ "(([0], [0], [1], [[2]]), [0, 1, 2], ''tail'')"] exI[of _ g'])
       (simp add: ds_def)
qed

text \<open>
  Claim C3 (head corruption respects the filter). Let the \<^verbatim>\<open>'head'\<close> side of the
  filter dictionary map the key \<open>(t, r)\<close> of the \<open>i\<close>-th triplet of the batch to a
  sequence of ids. When \<^verbatim>\<open>head_collate_fn\<close> returns, there is one row of negatives per
  triplet, and every negative of the \<open>i\<close>-th row is an index into the vocabulary whose
  entity is not in that sequence. So with \<^verbatim>\<open>filter_dict['head'][(1, 0)] = [0]\<close> the
  negatives for the triplet \<open>(0, 0, 1)\<close> are never the entity \<open>0\<close>.
\<close>
theorem head_collate_respects_filter:
  assumes "filter_dict ds ''head'' = Some (Some fd)"
    and "head_collate_fn ds data g = Some (Inr (((h', r', t', negs'), all_ents, lbl), g'))"
    and "i < length data" and "data ! i = (hi, ri, ti)"
    and "map_of fd (ti, ri) = Some (IdSeq fs)"
  shows "length negs' = length data
       \<and> (\<forall>j < length (negs' ! i).
             negs' ! i ! j < length all_ents \<and> all_ents ! (negs' ! i ! j) \<notin> set fs)"
proof -
  from assms(1,2)
  have c: "collate_fn ds data ''head'' (Some fd) g = Some (Inr (((h', r', t', negs'), all_ents, lbl), g'))"
    by (simp add: head_collate_fn_def dict_get_def bind_res_def)
  from collate_fn_Inr[OF c] obtain neg_ents d cd where
    dn: "draw_negs ds data ''head'' (Some fd) cd g = Some (Inr (neg_ents, g'))"
    and gi: "group_index [map fst data, map (snd \<circ> snd) data] = Inr (d, all_ents)
             \<or> group_index [map fst data, map (snd \<circ> snd) data, concat neg_ents] = Inr (d, all_ents)"
    and mr: "map_res (reindex_func d) neg_ents = Inr negs'"
    by auto
  from gi have voc: "\<And>x n. d x = Some n \<Longrightarrow> n < length all_ents \<and> all_ents ! n = x"
    using group_index_cases(3) by blast
  from dn have sn: "sample_negs (\<lambda>(hi, ri, ti). (ti, ri)) (num_negs ds) cd (Some fd) data g
                    = Some (Inr (neg_ents, g'))"
    by (simp add: draw_negs_def)
  note s = sample_negs_Inr[OF sn]
  have key: "fl_set_i (Some fd) ((\<lambda>(hi, ri, ti). (ti, ri)) (data ! i)) = Inr (Some (IdSeq fs))"
    using assms(4,5) by (simp add: fl_set_i_Some)
  from s assms(3) key have dis: "set (neg_ents ! i) \<inter> set fs = {}" by blast
  from s have len: "length neg_ents = length data" by blast
  from mr have l2: "length negs' = length neg_ents"
    and ri: "\<forall>j < length neg_ents. reindex_func d (neg_ents ! j) = Inr (negs' ! j)"
    by (simp_all add: map_res_Inr_iff)
  from ri assms(3) len have rr: "reindex_func d (neg_ents ! i) = Inr (negs' ! i)" by simp
  then have l3: "length (negs' ! i) = length (neg_ents ! i)"
    and look: "\<forall>j < length (neg_ents ! i). d (neg_ents ! i ! j) = Some (negs' ! i ! j)"
    by (simp_all add: reindex_func_Inr_iff)
  have "\<forall>j < length (negs' ! i).
             negs' ! i ! j < length all_ents \<and> all_ents ! (negs' ! i ! j) \<notin> set fs"
  proof (intro allI impI)
    fix j assume j: "j < length (negs' ! i)"
    with l3 look have "d (neg_ents ! i ! j) = Some (negs' ! i ! j)" by simp
    from voc[OF this] have a: "negs' ! i ! j < length all_ents"
      and b: "all_ents ! (negs' ! i ! j) = neg_ents ! i ! j" by simp_all
    from j l3 have "neg_ents ! i ! j \<in> set (neg_ents ! i)" by simp
    with dis b have "all_ents ! (negs' ! i ! j) \<notin> set fs" by auto
    with a show "negs' ! i ! j < length all_ents \<and> all_ents ! (negs' ! i ! j) \<notin> set fs" by simp
  qed
  with l2 len show ?thesis by simp
qed

lemma head_collate_eval_1:
  "\<exists>g'. head_collate_fn \<lparr>triplets = [(0, 0, 1)], num_ents = 2, num_negs = 1, neg_mode = ''full'',
             filter_mode = True,
             filter_dict = [''head'' \<mapsto> Some [((1, 0), IdSeq [0])], ''tail'' \<mapsto> Some [((0, 0), IdSeq [1])]],
             step = 0\<rparr>
          [(0, 0, 1)] (\<lambda>i. 1)
        = Some (Inr ((([0], [0], [1], [[1]]), [0, 1], ''head''), g'))"
proof -
  obtain d where d: "group_index [[0], [1], [1]] = Inr (d, [0, 1])"
    "reindex_func d [0] = Inr [0]" "reindex_func d [1] = Inr [1]"
    using group_index_011 by blast
  have u: "uniform_sampler 1 (CandInt 2) (Some (IdSeq [0])) (\<lambda>i. Suc 0) = Some (Inr ([1], \<lambda>i. Suc 0))"
    using uniform_sampler_filtered_const[of 1 1 "CandInt 2" "[0]"] by simp
  show ?thesis
    by (simp add: head_collate_fn_def dict_get_def collate_fn_def Let_def draw_negs_def fl_set_i_def u
        bind_res_def np_concatenate_def d to_batch_def bind_err_def np_stack_def)
qed

theorem head_collate_respects_filter_witness:
  "\<exists>ds g'. KGDataset_init [(0, 0, 1)] 2 1 ''full'' True
               (Some [''head'' \<mapsto> Some [((1, 0), IdSeq [0])], ''tail'' \<mapsto> Some [((0, 0), IdSeq [1])]])
             = Inr ds
     \<and> head_collate_fn ds [(0, 0, 1)] (\<lambda>i. 1)
         = Some (Inr ((([0], [0], [1], [[1]]), [0, 1], ''head''), g'))
     \<and> (\<forall>j < length ([[1::nat]] ! 0). [0, 1 :: int] ! ([[1]] ! 0 ! j) \<notin> set [0])"
proof -
  define ds where "ds = \<lparr>triplets = [(0, 0, 1)], num_ents = 2, num_negs = 1, neg_mode = ''full'',
             filter_mode = True,
             filter_dict = [''head'' \<mapsto> Some [((1, 0), IdSeq [0])], ''tail'' \<mapsto> Some [((0, 0), IdSeq [1])]],
             step = 0\<rparr>"
  have i: "KGDataset_init [(0, 0, 1)] 2 1 ''full'' True
               (Some [''head'' \<mapsto> Some [((1, 0), IdSeq [0])], ''tail'' \<mapsto> Some [((0, 0), IdSeq [1])]])
             = Inr ds"
    by (simp add: KGDataset_init_def ds_def)
  obtain g' where r: "head_collate_fn ds [(0, 0, 1)] (\<lambda>i. 1)
         = Some (Inr ((([0], [0], [1], [[1]]), [0, 1], ''head''), g'))"
    unfolding ds_def using head_collate_eval_1 by blast
  have fdh: "filter_dict ds ''head'' = Some (Some [((1, 0), IdSeq [0])])" by (simp add: ds_def)
  have ix: "(0::nat) < length [(0::int, 0::int, 1::int)]" "[(0::int, 0::int, 1::int)] ! 0 = (0, 0, 1)"
    by simp_all
  have mo: "map_of [((1::int, 0::int), IdSeq [0])] (1, 0) = Some (IdSeq [0])" by simp
  from head_collate_respects_filter[OF fdh r ix mo]
  have "\<forall>j < length ([[1::nat]] ! 0). [0, 1 :: int] ! ([[1]] ! 0 ! j) \<notin> set [0]" by blast
  with i r show ?thesis by blast
qed

text \<open>
  As stated, with the entry \<^verbatim>\<open>filter_dict['tail'][(1, 0)] = {0}\<close>, C3 fails: head
  corruption reads the \<^verbatim>\<open>'head'\<close> side only. Here the \<^verbatim>\<open>'head'\<close> side allows the
  entity \<open>0\<close> for the key \<open>(1, 0)\<close>, and it is sampled.
\<close>

theorem head_collate_tail_entry_counterexample:
  "KGDataset_init [(0, 0, 1)] 2 1 ''full'' True
     (Some [''head'' \<mapsto> Some [((1, 0), IdSeq [1])], ''tail'' \<mapsto> Some [((1, 0), IdSeq [0])]])
   = Inr \<lparr>triplets = [(0, 0, 1)], num_ents = 2, num_negs = 1, neg_mode = ''full'',
          filter_mode = True,
          filter_dict = [''head'' \<mapsto> Some [((1, 0), IdSeq [1])], ''tail'' \<mapsto> Some [((1, 0), IdSeq [0])]],
          step = 0\<rparr>
   \<and> head_collate_fn
        \<lparr>triplets = [(0, 0, 1)], num_ents = 2, num_negs = 1, neg_mode = ''full'',
         filter_mode = True,
         filter_dict = [''head'' \<mapsto> Some [((1, 0), IdSeq [1])], ''tail'' \<mapsto> Some [((1, 0), IdSeq [0])]],
         step = 0\<rparr>
        [(0, 0, 1)] (\<lambda>i. 0)
      = Some (Inr ((([0], [0], [1], [[0]]), [0, 1], ''head''), \<lambda>i. 0))
   \<and> [0, 1 :: int] ! ([[0::nat]] ! 0 ! 0) = 0"
proof -
  obtain d where d: "group_index [[0], [1], [0]] = Inr (d, [0, 1])"
    "reindex_func d [0] = Inr [0]" "reindex_func d [1] = Inr [1]"
    using group_index_010 by blast
  have u: "uniform_sampler 1 (CandInt 2) (Some (IdSeq [1])) (\<lambda>i. 0) = Some (Inr ([0], \<lambda>i. 0))"
    using uniform_sampler_filtered_const[of 1 0 "CandInt 2" "[1]"] by simp
  show ?thesis
    by (simp add: KGDataset_init_def head_collate_fn_def dict_get_def collate_fn_def Let_def
        draw_negs_def fl_set_i_def u bind_res_def np_concatenate_def d to_batch_def bind_err_def
        np_stack_def)
qed

text \<open>
  As stated, with the range \<open>[0, num_entities)\<close>, C9 fails: the bound is the
  \<^verbatim>\<open>'candidate'\<close> entry, and \<^verbatim>\<open>num_ents\<close> is never read. A dataset of \<open>5\<close> entities
  with the entry \<open>3\<close> gives the row \<open>0, 1, 2\<close>.
\<close>

theorem test_collate_normal_counterexample:
  "TestKGDataset_init \<lparr>tr_mode = Some ''normal'', tr_h = Some [0], tr_r = Some [0],
      tr_t = Some [1], tr_candidate = Some (PInt 3), tr_correct_index = None\<rparr> 5
   = Inr \<lparr>test_num_ents = 5, test_mode = ''normal'', test_h = [0], test_r = [0],
          test_t = Some [1], test_cand = PInt 3, test_corr_idx = None\<rparr>
   \<and> test_getitem \<lparr>test_num_ents = 5, test_mode = ''normal'', test_h = [0], test_r = [0],
          test_t = Some [1], test_cand = PInt 3, test_corr_idx = None\<rparr> 0
       = Inr ((0, 0, Some 1), PInt 3, None)
   \<and> test_collate_fn \<lparr>test_num_ents = 5, test_mode = ''normal'', test_h = [0], test_r = [0],
          test_t = Some [1], test_cand = PInt 3, test_corr_idx = None\<rparr>
         [((0, 0, Some 1), PInt 3, None)]
       = Inr (''normal'', ([0], [0], Some [1], T2 [[0, 1, 2]]), None)
   \<and> T2 [[0, 1, 2]] \<noteq> T2 [map int [0..<nat 5]]"
  by (simp add: TestKGDataset_init_def key_of_def bind_err_def test_getitem_def py_index_def
      test_collate_fn_def Let_def to_tensor_opt_def upt_rec)

theorem test_collate_normal_witness:
  "\<exists>ds x. TestKGDataset_init \<lparr>tr_mode = Some ''normal'', tr_h = Some [0], tr_r = Some [0],
               tr_t = Some [1], tr_candidate = Some (PInt 3), tr_correct_index = None\<rparr> 5 = Inr ds
     \<and> test_getitem ds 0 = Inr x
     \<and> (\<exists>b. test_collate_fn ds [x] = Inr b \<and> fst b = ''normal'' \<and> snd (snd b) = None
            \<and> snd (snd (snd (fst (snd b)))) = T2 [map int [0..<nat 3]])"
proof -
  obtain ds where i: "TestKGDataset_init \<lparr>tr_mode = Some ''normal'', tr_h = Some [0], tr_r = Some [0],
               tr_t = Some [1], tr_candidate = Some (PInt 3), tr_correct_index = None\<rparr> 5 = Inr ds"
    by (simp add: TestKGDataset_init_def key_of_def bind_err_def)
  then have f: "test_mode ds = ''normal''" "test_cand ds = PInt 3" "test_t ds \<noteq> None"
    by (auto simp: TestKGDataset_init_def key_of_def bind_err_def)
  obtain x where x: "test_getitem ds 0 = Inr x"
    using i by (auto simp: TestKGDataset_init_def key_of_def bind_err_def test_getitem_def py_index_def)
  have ne: "[x] \<noteq> []" by simp
  have src: "\<forall>y \<in> set [x]. \<exists>index. test_getitem ds index = Inr y" using x by auto
  note t = test_collate_normal[OF f(1) ne src]
  from t f obtain b where b: "test_collate_fn ds [x] = Inr b" by blast
  with t f(2) have "fst b = ''normal'' \<and> snd (snd b) = None
            \<and> snd (snd (snd (fst (snd b)))) = T2 [map int [0..<nat 3]]"
    by auto
  with i x b show ?thesis by blast
qed

subsection \<open>Collation without a filter\<close>



lemma KGDataset_init_unfiltered_fields:
  assumes "KGDataset_init trs ne nn m False fd = Inr ds"
  shows "filter_dict ds = [''head'' \<mapsto> None, ''tail'' \<mapsto> None]"
    and "num_negs ds = nn" and "num_ents ds = ne" and "neg_mode ds = m"
  using assms by (auto simp: KGDataset_init_unfiltered)





end
